theory Spec2Isabelle
  imports Complex_Main "HOL-Library.Word"
begin

section \<open>Data model of \<open>src/zstd.js\<close>\<close>

text \<open>
  A \<open>Uint8Array\<close> is a list of 8-bit words. A JavaScript \<open>Error\<close> is its message.
  Lengths and sizes are natural numbers, loop indices and the chunk size are integers
  (the source accepts any number for \<open>chunkSize\<close>, also zero and negative ones), times
  and fractions are reals: every quotient the source forms has integer operands, and the
  properties below are about the order of the quotients and about the quotient 1.
\<close>

type_synonym byte = "8 word"
type_synonym bytes = "byte list"

datatype js_error = Error string

text \<open>
  The optional trailing dictionary argument of a codec call: left out, or
  \<open>this.dictionary\<close>, which is \<open>null\<close> (\<open>None\<close>) until \<open>createDictionary\<close> has run.
\<close>

datatype dict_arg = Omitted | Passed "bytes option"

text \<open>
  The object returned by \<open>ZstdInit()\<close> of the external package: the compressor and the
  decompressor of its two interfaces, \<open>ZstdSimple\<close> and \<open>ZstdStream\<close>. The class calls
  three of the four and never \<open>ZstdSimple.decompress\<close>. A call that throws is \<open>Inl\<close> of
  the thrown error's message.
\<close>

record ZstdCodec =
  ZstdSimple_compress :: "bytes \<Rightarrow> int \<Rightarrow> dict_arg \<Rightarrow> string + bytes"
  ZstdSimple_decompress :: "bytes \<Rightarrow> dict_arg \<Rightarrow> string + bytes"
  ZstdStream_compress :: "bytes \<Rightarrow> int \<Rightarrow> bool \<Rightarrow> dict_arg \<Rightarrow> string + bytes"
  ZstdStream_decompress :: "bytes \<Rightarrow> dict_arg \<Rightarrow> string + bytes"

record metrics =
  compressionTime :: real
  decompressionTime :: real
  originalSize :: nat
  compressedSize :: nat

record metrics_snapshot = metrics +
  compressionRatio :: real

record ZstdProcessor =
  codec :: "ZstdCodec option"
  dictionary :: "bytes option"
  performanceMetrics :: metrics

text \<open>
  The options object; a missing property is \<open>None\<close> and takes the default of the
  destructuring pattern. \<open>options = {}\<close> is the record of four \<open>None\<close>s.
\<close>

record options =
  level :: "int option"
  useStream :: "bool option"
  useDictionary :: "bool option"
  chunkSize :: "int option"

text \<open>
  The progress callback: \<open>None\<close> when it returns, \<open>Some m\<close> when it throws an error with
  message \<open>m\<close>. The calls made are recorded in order, as (fraction, chunk length) pairs.
\<close>

type_synonym callback = "real \<Rightarrow> nat \<Rightarrow> string option"
type_synonym calls = "(real \<times> nat) list"

section \<open>Typed-array primitives\<close>

text \<open>A relative index of \<open>slice\<close>: negative counts from the end, then clamped.\<close>

definition rel_index :: "nat \<Rightarrow> int \<Rightarrow> nat" where
  "rel_index n k = (if k < 0 then nat (max (int n + k) 0) else min (nat k) n)"

definition js_slice :: "'a list \<Rightarrow> int \<Rightarrow> int \<Rightarrow> 'a list" where
  "js_slice xs b e =
     (let from = rel_index (length xs) b; to = rel_index (length xs) e
      in take (to - from) (drop from xs))"

text \<open>\<open>target.set(source, offset)\<close>: a RangeError when the source does not fit.\<close>

definition typed_set :: "bytes \<Rightarrow> bytes \<Rightarrow> nat \<Rightarrow> string + bytes" where
  "typed_set target source offset =
     (if offset + length source \<le> length target
      then Inr (take offset target @ source @ drop (offset + length source) target)
      else Inl ''offset is out of bounds'')"

section \<open>The class\<close>

definition constructor :: ZstdProcessor where
  "constructor =
     \<lparr>codec = None, dictionary = None,
      performanceMetrics =
        \<lparr>compressionTime = 0, decompressionTime = 0, originalSize = 0, compressedSize = 0\<rparr>\<rparr>"

text \<open>\<open>init\<close>, given the outcome of awaiting \<open>ZstdInit()\<close>.\<close>

definition init :: "ZstdProcessor \<Rightarrow> string + ZstdCodec \<Rightarrow> (js_error + unit) \<times> ZstdProcessor" where
  "init p zstdInit =
     (case zstdInit of
        Inr c \<Rightarrow> (Inr (), p\<lparr>codec := Some c\<rparr>)
      | Inl m \<Rightarrow> (Inl (Error (''Failed to initialize ZSTD: '' @ m)), p))"

definition createDictionary :: "ZstdProcessor \<Rightarrow> bytes \<Rightarrow> bytes \<times> ZstdProcessor" where
  "createDictionary p sampleData =
     (let d = js_slice sampleData 0 (min (int (length sampleData)) 1024)
      in (d, p\<lparr>dictionary := Some d\<rparr>))"

subsection \<open>streamCompress\<close>

text \<open>
  Lines 61 to 63, the codec call on one chunk. \<open>compressWithProgress\<close> has checked the
  codec; called directly on an object without one, the member access throws.
\<close>

definition compress_chunk :: "ZstdProcessor \<Rightarrow> int \<Rightarrow> bool \<Rightarrow> bytes \<Rightarrow> string + bytes" where
  "compress_chunk p lvl useDict chunk =
     (case codec p of
        None \<Rightarrow> Inl ''Cannot read properties of null''
      | Some c \<Rightarrow>
          (if useDict then ZstdStream_compress c chunk lvl True (Passed (dictionary p))
           else ZstdStream_compress c chunk lvl True Omitted))"

text \<open>Line 67, the fraction reported after the chunk at offset \<open>i\<close>.\<close>

definition progress_of :: "bytes \<Rightarrow> int \<Rightarrow> int \<Rightarrow> real" where
  "progress_of data chunkSz i = min (real_of_int (i + chunkSz) / real (length data)) 1"

text \<open>
  The first loop (lines 59 to 71). It need not end: \<open>i += chunkSize\<close> makes no progress
  for a chunk size of zero or less, so the loop is a partial function and \<open>None\<close> is a
  run that never leaves it. A result is the array \<open>chunks\<close> or the message of the error
  thrown by the codec call or by the callback, with the callback calls made so far.
  The \<open>await\<close> at the end of the body hands control to the event loop and comes back;
  the model is of one call running alone on its object.
\<close>

partial_function (option) streamCompress_loop ::
  "ZstdProcessor \<Rightarrow> bytes \<Rightarrow> int \<Rightarrow> bool \<Rightarrow> int \<Rightarrow> callback option \<Rightarrow>
   int \<Rightarrow> bytes list \<Rightarrow> calls \<Rightarrow> ((string + bytes list) \<times> calls) option" where
  "streamCompress_loop p data lvl useDict chunkSz progressCallback i chunks tr =
     (if i < int (length data) then
        (case compress_chunk p lvl useDict (js_slice data i (i + chunkSz)) of
           Inl m \<Rightarrow> Some (Inl m, tr)
         | Inr compressedChunk \<Rightarrow>
            (case progressCallback of
               None \<Rightarrow>
                 streamCompress_loop p data lvl useDict chunkSz progressCallback
                   (i + chunkSz) (chunks @ [compressedChunk]) tr
             | Some cb \<Rightarrow>
                (case cb (progress_of data chunkSz i) (length compressedChunk) of
                   Some m \<Rightarrow>
                     Some (Inl m, tr @ [(progress_of data chunkSz i, length compressedChunk)])
                 | None \<Rightarrow>
                     streamCompress_loop p data lvl useDict chunkSz progressCallback
                       (i + chunkSz) (chunks @ [compressedChunk])
                       (tr @ [(progress_of data chunkSz i, length compressedChunk)]))))
      else Some (Inr chunks, tr))"

text \<open>The chunks that loop slices: its header and line 60 alone.\<close>

partial_function (option) streamCompress_slices ::
  "bytes \<Rightarrow> int \<Rightarrow> int \<Rightarrow> bytes list \<Rightarrow> bytes list option" where
  "streamCompress_slices data chunkSz i acc =
     (if i < int (length data)
      then streamCompress_slices data chunkSz (i + chunkSz) (acc @ [js_slice data i (i + chunkSz)])
      else Some acc)"

text \<open>Lines 73 to 81: the total length, a zeroed array, and each chunk copied in.\<close>

definition totalLength :: "bytes list \<Rightarrow> nat" where
  "totalLength chunks = foldl (\<lambda>sum chunk. sum + length chunk) 0 chunks"

fun copy_chunks :: "bytes list \<Rightarrow> bytes \<Rightarrow> nat \<Rightarrow> string + bytes" where
  "copy_chunks [] result offset = Inr result"
| "copy_chunks (chunk # rest) result offset =
     (case typed_set result chunk offset of
        Inl m \<Rightarrow> Inl m
      | Inr result' \<Rightarrow> copy_chunks rest result' (offset + length chunk))"

definition streamCompress ::
  "ZstdProcessor \<Rightarrow> bytes \<Rightarrow> int \<Rightarrow> bool \<Rightarrow> int \<Rightarrow> callback option \<Rightarrow>
   ((string + bytes) \<times> calls) option" where
  "streamCompress p data lvl useDict chunkSz progressCallback =
     (case streamCompress_loop p data lvl useDict chunkSz progressCallback 0 [] [] of
        None \<Rightarrow> None
      | Some (Inl m, tr) \<Rightarrow> Some (Inl m, tr)
      | Some (Inr chunks, tr) \<Rightarrow>
          Some (copy_chunks chunks (replicate (totalLength chunks) 0) 0, tr))"

subsection \<open>compressWithProgress, decompress, getMetrics\<close>

text \<open>
  \<open>startTime\<close> and \<open>endTime\<close> are the two readings of \<open>performance.now()\<close>. The result is
  the returned buffer or the thrown error, the object afterwards, and the callback calls;
  \<open>None\<close> when the call never returns. Line 31 first: the options with their defaults.
\<close>

definition opt_level :: "options \<Rightarrow> int" where
  "opt_level opts = (case level opts of None \<Rightarrow> 5 | Some l \<Rightarrow> l)"

definition opt_useStream :: "options \<Rightarrow> bool" where
  "opt_useStream opts = (case useStream opts of None \<Rightarrow> False | Some b \<Rightarrow> b)"

definition opt_useDictionary :: "options \<Rightarrow> bool" where
  "opt_useDictionary opts = (case useDictionary opts of None \<Rightarrow> False | Some b \<Rightarrow> b)"

definition opt_chunkSize :: "options \<Rightarrow> int" where
  "opt_chunkSize opts = (case chunkSize opts of None \<Rightarrow> 1024 * 1024 | Some n \<Rightarrow> n)"

definition compressWithProgress ::
  "ZstdProcessor \<Rightarrow> bytes \<Rightarrow> options \<Rightarrow> callback option \<Rightarrow> real \<Rightarrow> real \<Rightarrow>
   ((js_error + bytes) \<times> ZstdProcessor \<times> calls) option" where
  "compressWithProgress p data opts progressCallback startTime endTime =
     (case codec p of
        None \<Rightarrow> Some (Inl (Error ''ZSTD not initialized''), p, [])
      | Some c \<Rightarrow>
         (case (if opt_useStream opts
                then streamCompress p data (opt_level opts) (opt_useDictionary opts)
                       (opt_chunkSize opts) progressCallback
                else Some (if opt_useDictionary opts
                           then ZstdSimple_compress c data (opt_level opts) (Passed (dictionary p))
                           else ZstdSimple_compress c data (opt_level opts) Omitted, [])) of
            None \<Rightarrow> None
          | Some (Inl m, tr) \<Rightarrow> Some (Inl (Error (''Compression failed: '' @ m)), p, tr)
          | Some (Inr compressedData, tr) \<Rightarrow>
              Some (Inr compressedData,
                    p\<lparr>performanceMetrics := (performanceMetrics p)
                        \<lparr>compressionTime := endTime - startTime,
                         originalSize := length data,
                         compressedSize := length compressedData\<rparr>\<rparr>,
                    tr)))"

definition decompress ::
  "ZstdProcessor \<Rightarrow> bytes \<Rightarrow> bool \<Rightarrow> real \<Rightarrow> real \<Rightarrow> (js_error + bytes) \<times> ZstdProcessor" where
  "decompress p compressedData useDict startTime endTime =
     (case codec p of
        None \<Rightarrow> (Inl (Error ''ZSTD not initialized''), p)
      | Some c \<Rightarrow>
         (case (if useDict then ZstdStream_decompress c compressedData (Passed (dictionary p))
                else ZstdStream_decompress c compressedData Omitted) of
            Inl m \<Rightarrow> (Inl (Error (''Decompression failed: '' @ m)), p)
          | Inr decompressedData \<Rightarrow>
              (Inr decompressedData,
               p\<lparr>performanceMetrics := (performanceMetrics p)
                   \<lparr>decompressionTime := endTime - startTime\<rparr>\<rparr>)))"

text \<open>\<open>compressedSize || 1\<close> is 1 for 0 and the size itself otherwise.\<close>

definition getMetrics :: "ZstdProcessor \<Rightarrow> metrics_snapshot" where
  "getMetrics p =
     metrics.extend (performanceMetrics p)
       \<lparr>compressionRatio =
          real (originalSize (performanceMetrics p)) /
          real (if compressedSize (performanceMetrics p) = 0 then 1
                else compressedSize (performanceMetrics p))\<rparr>"


section \<open>Codecs and objects used as concrete inputs\<close>

text \<open>A codec that stores the bytes as they are.\<close>

definition raw_codec :: ZstdCodec where
  "raw_codec =
     \<lparr>ZstdSimple_compress = (\<lambda>d l a. Inr d),
      ZstdSimple_decompress = (\<lambda>z a. Inr z),
      ZstdStream_compress = (\<lambda>d l e a. Inr d),
      ZstdStream_decompress = (\<lambda>z a. Inr z)\<rparr>"

text \<open>
  A codec whose frame is a zero byte followed by the data, and whose decompressor reads
  one frame: everything after the first byte.
\<close>

definition tag_codec :: ZstdCodec where
  "tag_codec =
     \<lparr>ZstdSimple_compress = (\<lambda>d l a. Inr (0 # d)),
      ZstdSimple_decompress =
        (\<lambda>z a. case z of [] \<Rightarrow> Inl ''no frame''
                | t # d \<Rightarrow> if t = 0 then Inr d else Inl ''not a frame''),
      ZstdStream_compress = (\<lambda>d l e a. Inr (0 # d)),
      ZstdStream_decompress =
        (\<lambda>z a. case z of [] \<Rightarrow> Inl ''no frame''
                | t # d \<Rightarrow> if t = 0 then Inr d else Inl ''not a frame'')\<rparr>"

text \<open>
  A codec whose two interfaces have formats of their own: the simple one appends a zero
  byte and takes the last byte off again, the stream one stores the bytes as they are.
\<close>

definition suffix_codec :: ZstdCodec where
  "suffix_codec =
     \<lparr>ZstdSimple_compress = (\<lambda>d l a. Inr (d @ [0])),
      ZstdSimple_decompress =
        (\<lambda>z a. if z = [] then Inl ''no frame'' else Inr (butlast z)),
      ZstdStream_compress = (\<lambda>d l e a. Inr d),
      ZstdStream_decompress = (\<lambda>z a. Inr z)\<rparr>"

text \<open>A codec that rejects every call.\<close>

definition failing_codec :: ZstdCodec where
  "failing_codec =
     \<lparr>ZstdSimple_compress = (\<lambda>d l a. Inl ''rejected''),
      ZstdSimple_decompress = (\<lambda>z a. Inl ''rejected''),
      ZstdStream_compress = (\<lambda>d l e a. Inl ''rejected''),
      ZstdStream_decompress = (\<lambda>z a. Inl ''rejected'')\<rparr>"

text \<open>A fresh object after a successful \<open>init\<close>.\<close>

definition ready :: "ZstdCodec \<Rightarrow> ZstdProcessor" where
  "ready c = snd (init constructor (Inr c))"

definition stream_options :: "int \<Rightarrow> options" where
  "stream_options n =
     \<lparr>level = None, useStream = Some True, useDictionary = None, chunkSize = Some n\<rparr>"

text \<open>The empty options object: no streaming, no dictionary, the default chunk size.\<close>

definition default_options :: options where
  "default_options = \<lparr>level = None, useStream = None, useDictionary = None, chunkSize = None\<rparr>"

text \<open>Options that ask for the dictionary, with a chunk size of zero.\<close>

definition unset_dictionary_options :: options where
  "unset_dictionary_options =
     \<lparr>level = None, useStream = None, useDictionary = Some True, chunkSize = Some 0\<rparr>"

section \<open>The frame format and the codec contract of the specification\<close>

text \<open>
  Section 4.4 of the specification: a frame is the compressed chunk after its length as
  a 4-byte little-endian integer, and the output is the frames in chunk order.
\<close>

definition le32 :: "nat \<Rightarrow> bytes" where
  "le32 n = [of_nat n, of_nat (n div 256), of_nat (n div 65536), of_nat (n div 16777216)]"

definition spec_frame :: "bytes \<Rightarrow> bytes" where
  "spec_frame z = le32 (length z) @ z"

definition spec_framed_output :: "bytes list \<Rightarrow> bytes" where
  "spec_framed_output zs = concat (map spec_frame zs)"

text \<open>
  A correct inverse pair: in each interface, whatever the compressor returns for some
  data, the decompressor of that interface turns back into that data, under the same
  dictionary argument.
\<close>

definition codec_inverse_pair :: "ZstdCodec \<Rightarrow> bool" where
  "codec_inverse_pair c \<longleftrightarrow>
     (\<forall>x l a z. ZstdSimple_compress c x l a = Inr z \<longrightarrow> ZstdSimple_decompress c z a = Inr x) \<and>
     (\<forall>x l a z. ZstdStream_compress c x l True a = Inr z \<longrightarrow> ZstdStream_decompress c z a = Inr x)"

text \<open>
  What the class relies on beyond that. Without streaming it compresses with one
  interface and decompresses with the other: the stream decompressor has to read what
  the simple compressor writes.
\<close>

definition codec_stream_reads_simple :: "ZstdCodec \<Rightarrow> bool" where
  "codec_stream_reads_simple c \<longleftrightarrow>
     (\<forall>x l a z. ZstdSimple_compress c x l a = Inr z \<longrightarrow> ZstdStream_decompress c z a = Inr x)"

text \<open>
  With streaming it decompresses the chunks' frames in one call: the stream decompressor
  has to read a run of frames, one after the other, and return the data of all of them.
\<close>

definition codec_reads_frame_runs :: "ZstdCodec \<Rightarrow> bool" where
  "codec_reads_frame_runs c \<longleftrightarrow>
     (\<forall>chs zs l a. list_all2 (\<lambda>ch z. ZstdStream_compress c ch l True a = Inr z) chs zs
        \<longrightarrow> ZstdStream_decompress c (concat zs) a = Inr (concat chs))"

text \<open>Valid options, as the data model of the specification has them: a positive chunk size.\<close>

definition valid_options :: "options \<Rightarrow> bool" where
  "valid_options opts \<longleftrightarrow> 0 < opt_chunkSize opts"

text \<open>A codec whose compressors never throw.\<close>

definition codec_compresses_all :: "ZstdCodec \<Rightarrow> bool" where
  "codec_compresses_all c \<longleftrightarrow>
     (\<forall>x l a. (\<exists>z. ZstdSimple_compress c x l a = Inr z) \<and>
              (\<exists>z. ZstdStream_compress c x l True a = Inr z))"

section \<open>Auxiliary notions for the proofs\<close>

text \<open>The values of the loop index \<open>i\<close> from a given one on, for a positive step.\<close>

function offsets :: "int \<Rightarrow> int \<Rightarrow> int \<Rightarrow> int list" where
  "offsets n cs i = (if 0 < cs \<and> i < n then i # offsets n cs (i + cs) else [])"
  by pat_completeness auto
termination
  by (relation "measure (\<lambda>(n, cs, i). nat (n - i))") auto

declare offsets.simps [simp del]

text \<open>The callback calls of a run over the given offsets and compressed chunks.\<close>

definition reported_calls :: "callback option \<Rightarrow> bytes \<Rightarrow> int \<Rightarrow> int list \<Rightarrow> bytes list \<Rightarrow> calls" where
  "reported_calls cb data cs offs zs =
     (case cb of
        None \<Rightarrow> []
      | Some f \<Rightarrow> map (\<lambda>(off, z). (progress_of data cs off, length z)) (zip offs zs))"

section \<open>Slices, offsets and the copy loop\<close>

lemma js_slice_chunk:
  assumes "0 \<le> i" "0 < cs"
  shows "js_slice xs i (i + cs) = take (nat cs) (drop (nat i) xs)"
proof (cases "nat i < length xs")
  case True
  have "min (nat (i + cs)) (length xs) - nat i = min (nat cs) (length xs - nat i)"
    using assms True by (auto simp add: nat_add_distrib min_def)
  moreover have "take (min (nat cs) (length xs - nat i)) (drop (nat i) xs) = take (nat cs) (drop (nat i) xs)"
    by (simp add: min_def)
  ultimately show ?thesis using assms True
    by (simp add: js_slice_def rel_index_def Let_def min_absorb1)
next
  case False
  with assms show ?thesis
    by (simp add: js_slice_def rel_index_def Let_def)
qed

lemma slices_offsets:
  "0 < cs \<Longrightarrow> streamCompress_slices data cs i acc =
     Some (acc @ map (\<lambda>off. js_slice data off (off + cs)) (offsets (int (length data)) cs i))"
proof (induction "int (length data)" cs i arbitrary: acc rule: offsets.induct)
  case (1 cs i)
  show ?case
  proof (cases "i < int (length data)")
    case True
    with 1 show ?thesis
      by (subst streamCompress_slices.simps, subst offsets.simps) simp
  next
    case False
    then show ?thesis
      by (subst streamCompress_slices.simps, subst offsets.simps) simp
  qed
qed

lemma offsets_nth:
  "k < length (offsets n cs i) \<Longrightarrow> offsets n cs i ! k = i + int k * cs"
proof (induction n cs i arbitrary: k rule: offsets.induct)
  case (1 n cs i)
  from "1.prems" have c: "0 < cs \<and> i < n"
    by (subst (asm) offsets.simps) (simp split: if_splits)
  show ?case
  proof (cases k)
    case 0
    with c show ?thesis by (subst offsets.simps) simp
  next
    case (Suc j)
    with "1.prems" c have "j < length (offsets n cs (i + cs))"
      by (subst (asm) offsets.simps) simp
    with 1 c have "offsets n cs (i + cs) ! j = i + cs + int j * cs" by simp
    with c Suc show ?thesis
      by (subst offsets.simps) (simp add: algebra_simps)
  qed
qed

lemma offsets_bounds: "x \<in> set (offsets n cs i) \<Longrightarrow> i \<le> x \<and> x < n"
proof (induction n cs i rule: offsets.induct)
  case (1 n cs i)
  from "1.prems" have c: "0 < cs \<and> i < n"
    by (subst (asm) offsets.simps) (simp split: if_splits)
  from "1.prems" c have "x = i \<or> x \<in> set (offsets n cs (i + cs))"
    by (subst (asm) offsets.simps) simp
  with 1 c show ?case by auto
qed

lemma offsets_empty: "offsets n cs i = [] \<longleftrightarrow> \<not> (0 < cs \<and> i < n)"
  by (subst offsets.simps) simp

lemma offsets_last: "offsets n cs i \<noteq> [] \<Longrightarrow> n \<le> last (offsets n cs i) + cs"
proof (induction n cs i rule: offsets.induct)
  case (1 n cs i)
  from "1.prems" have c: "0 < cs \<and> i < n" by (simp add: offsets_empty)
  show ?case
  proof (cases "i + cs < n")
    case True
    with c have ne: "offsets n cs (i + cs) \<noteq> []" by (simp add: offsets_empty)
    with 1 c have "n \<le> last (offsets n cs (i + cs)) + cs" by simp
    with c ne show ?thesis by (subst offsets.simps) simp
  next
    case False
    then have "offsets n cs (i + cs) = []" by (simp add: offsets_empty)
    with c False show ?thesis by (subst offsets.simps) simp
  qed
qed

lemma concat_slices:
  "0 \<le> i \<Longrightarrow> concat (map (\<lambda>off. js_slice data off (off + cs)) (offsets (int (length data)) cs i))
     = (if 0 < cs then drop (nat i) data else [])"
proof (induction "int (length data)" cs i rule: offsets.induct)
  case (1 cs i)
  show ?case
  proof (cases "0 < cs \<and> i < int (length data)")
    case True
    with 1 have "concat (map (\<lambda>off. js_slice data off (off + cs)) (offsets (int (length data)) cs (i + cs)))
        = drop (nat (i + cs)) data" by simp
    moreover have "take (nat cs) (drop (nat i) data) @ drop (nat (i + cs)) data = drop (nat i) data"
      using True "1.prems"
      by (simp add: nat_add_distrib add.commute flip: drop_drop)
    ultimately show ?thesis using True "1.prems"
      by (subst offsets.simps) (simp add: js_slice_chunk)
  next
    case False
    then show ?thesis
      by (subst offsets.simps) auto
  qed
qed

lemma foldl_lengths: "foldl (\<lambda>sum chunk. sum + length chunk) a chunks = a + length (concat chunks)"
  by (induction chunks arbitrary: a) simp_all

lemma totalLength_concat: "totalLength chunks = length (concat chunks)"
  by (simp add: totalLength_def foldl_lengths)

lemma copy_chunks_fits:
  "offset + length (concat chunks) \<le> length result \<Longrightarrow>
   copy_chunks chunks result offset =
     Inr (take offset result @ concat chunks @ drop (offset + length (concat chunks)) result)"
proof (induction chunks arbitrary: result offset)
  case Nil
  then show ?case by simp
next
  case (Cons chunk rest)
  let ?r = "take offset result @ chunk @ drop (offset + length chunk) result"
  from Cons.prems have fit: "offset + length chunk \<le> length result" by simp
  then have len: "length ?r = length result" by simp
  from Cons.prems have "offset + length chunk + length (concat rest) \<le> length ?r"
    by (simp only: len) simp
  then have "copy_chunks rest ?r (offset + length chunk) =
     Inr (take (offset + length chunk) ?r @ concat rest @
          drop (offset + length chunk + length (concat rest)) ?r)"
    by (rule Cons.IH)
  moreover have "take (offset + length chunk) ?r = take offset result @ chunk"
    using fit by (simp add: min_absorb2)
  moreover have "drop (offset + length chunk + length (concat rest)) ?r =
      drop (offset + length (concat (chunk # rest))) result"
    using fit by (simp add: min_absorb2 add.commute add.left_commute)
  ultimately show ?case using fit by (simp add: typed_set_def)
qed

lemma copy_chunks_concat:
  "copy_chunks chunks (replicate (totalLength chunks) 0) 0 = Inr (concat chunks)"
  by (simp add: copy_chunks_fits totalLength_concat)

section \<open>The chunk loop\<close>

text \<open>With a chunk size of zero or less the loop is left only by an error.\<close>

lemma loop_nonpositive:
  assumes "streamCompress_loop p data lvl ud cs cb i chunks tr = Some r"
  shows "i < int (length data) \<longrightarrow> cs \<le> 0 \<longrightarrow> isl (fst r)"
  by (rule streamCompress_loop.raw_induct
        [where P = "\<lambda>p data lvl ud cs cb i chunks tr r.
                      i < int (length data) \<longrightarrow> cs \<le> 0 \<longrightarrow> isl (fst r)", OF _ assms])
     (fastforce split: if_splits sum.splits option.splits)

lemma loop_success:
  assumes "0 < cs"
    and "streamCompress_loop p data lvl ud cs cb i chunks tr = Some (Inr zs, tr')"
  shows "\<exists>zs2. zs = chunks @ zs2 \<and>
           list_all2 (\<lambda>off z. compress_chunk p lvl ud (js_slice data off (off + cs)) = Inr z)
             (offsets (int (length data)) cs i) zs2 \<and>
           tr' = tr @ reported_calls cb data cs (offsets (int (length data)) cs i) zs2"
  using assms
proof (induction "int (length data)" cs i arbitrary: chunks tr rule: offsets.induct)
  case (1 cs i)
  let ?n = "int (length data)"
  show ?case
  proof (cases "i < ?n")
    case False
    with "1.prems"(2) have "zs = chunks \<and> tr' = tr"
      by (subst (asm) streamCompress_loop.simps) simp
    moreover from False have "offsets ?n cs i = []" by (simp add: offsets_empty)
    ultimately show ?thesis by (simp add: reported_calls_def split: option.split)
  next
    case True
    let ?tr1 = "case cb of None \<Rightarrow> tr
                | Some f \<Rightarrow> tr @ [(progress_of data cs i,
                    length (projr (compress_chunk p lvl ud (js_slice data i (i + cs)))))]"
    from "1.prems"(2) True obtain z where
      z: "compress_chunk p lvl ud (js_slice data i (i + cs)) = Inr z"
      and rest: "streamCompress_loop p data lvl ud cs cb (i + cs) (chunks @ [z]) ?tr1
                   = Some (Inr zs, tr')"
      by (subst (asm) streamCompress_loop.simps) (auto split: sum.splits option.splits)
    from "1.hyps" [OF _ "1.prems"(1) rest] "1.prems"(1) True
    obtain zs2 where
      a: "zs = (chunks @ [z]) @ zs2"
      and b: "list_all2 (\<lambda>off z. compress_chunk p lvl ud (js_slice data off (off + cs)) = Inr z)
                (offsets ?n cs (i + cs)) zs2"
      and c: "tr' = ?tr1 @ reported_calls cb data cs (offsets ?n cs (i + cs)) zs2"
      by auto
    have o: "offsets ?n cs i = i # offsets ?n cs (i + cs)"
      using True "1.prems"(1) by (subst offsets.simps) simp
    have "zs = chunks @ (z # zs2)" using a by simp
    moreover have "list_all2 (\<lambda>off z. compress_chunk p lvl ud (js_slice data off (off + cs)) = Inr z)
                (offsets ?n cs i) (z # zs2)"
      using b z o by simp
    moreover have "tr' = tr @ reported_calls cb data cs (offsets ?n cs i) (z # zs2)"
      using c z o by (simp add: reported_calls_def split: option.splits)
    ultimately show ?thesis by blast
  qed
qed

lemma loop_returns:
  assumes "0 < cs"
    and "list_all2 (\<lambda>off z. compress_chunk p lvl ud (js_slice data off (off + cs)) = Inr z)
           (offsets (int (length data)) cs i) zs2"
    and "\<And>f x n. cb = Some f \<Longrightarrow> f x n = None"
  shows "streamCompress_loop p data lvl ud cs cb i chunks tr =
           Some (Inr (chunks @ zs2),
                 tr @ reported_calls cb data cs (offsets (int (length data)) cs i) zs2)"
  using assms(1,2)
proof (induction "int (length data)" cs i arbitrary: chunks tr zs2 rule: offsets.induct)
  case (1 cs i)
  let ?n = "int (length data)"
  show ?case
  proof (cases "i < ?n")
    case False
    then have "offsets ?n cs i = []" by (simp add: offsets_empty)
    with "1.prems" False show ?thesis
      by (subst streamCompress_loop.simps) (simp add: reported_calls_def split: option.split)
  next
    case True
    have o: "offsets ?n cs i = i # offsets ?n cs (i + cs)"
      using True "1.prems"(1) by (subst offsets.simps) simp
    with "1.prems"(2) obtain z zs3 where
      zs2: "zs2 = z # zs3"
      and z: "compress_chunk p lvl ud (js_slice data i (i + cs)) = Inr z"
      and r: "list_all2 (\<lambda>off z. compress_chunk p lvl ud (js_slice data off (off + cs)) = Inr z)
               (offsets ?n cs (i + cs)) zs3"
      by (auto simp: list_all2_Cons1)
    note ih = "1.hyps" [OF _ "1.prems"(1) r]
    show ?thesis
    proof (cases cb)
      case None
      with True z zs2 o ih [of "chunks @ [z]" tr] "1.prems"(1) show ?thesis
        by (subst streamCompress_loop.simps) (simp add: reported_calls_def)
    next
      case (Some f)
      with assms(3) have "f (progress_of data cs i) (length z) = None" by simp
      with Some True z zs2 o "1.prems"(1)
        ih [of "chunks @ [z]" "tr @ [(progress_of data cs i, length z)]"]
      show ?thesis
        by (subst streamCompress_loop.simps) (simp add: reported_calls_def)
    qed
  qed
qed

lemma loop_total:
  assumes "0 < cs"
  shows "\<exists>r. streamCompress_loop p data lvl ud cs cb i chunks tr = Some r"
  using assms
proof (induction "int (length data)" cs i arbitrary: chunks tr rule: offsets.induct)
  case (1 cs i)
  show ?case
  proof (cases "i < int (length data)")
    case False
    then show ?thesis by (subst streamCompress_loop.simps) simp
  next
    case True
    with "1.hyps" "1.prems" show ?thesis
      by (subst streamCompress_loop.simps) (auto split: sum.split option.split)
  qed
qed

section \<open>Concrete runs\<close>

lemma ready_fields:
  "codec (ready c) = Some c" "dictionary (ready c) = None"
  "performanceMetrics (ready c) =
     \<lparr>compressionTime = 0, decompressionTime = 0, originalSize = 0, compressedSize = 0\<rparr>"
  by (simp_all add: ready_def init_def constructor_def)

lemmas opt_defs = opt_level_def opt_useStream_def opt_useDictionary_def opt_chunkSize_def

lemma decompress_raw:
  "decompress (ready raw_codec) z False s e =
     (Inr z, (ready raw_codec)\<lparr>performanceMetrics :=
        \<lparr>compressionTime = 0, decompressionTime = e - s, originalSize = 0, compressedSize = 0\<rparr>\<rparr>)"
  by (simp add: decompress_def ready_fields raw_codec_def)

lemma compress_uninitialised:
  "compressWithProgress constructor data opts cb s e =
     Some (Inl (Error ''ZSTD not initialized''), constructor, [])"
  by (simp add: compressWithProgress_def constructor_def)

lemma compress_failing:
  "compressWithProgress (ready failing_codec) [1, 2, 3] (stream_options 2) None 0 1 =
     Some (Inl (Error ''Compression failed: rejected''), ready failing_codec, [])"
  by (simp add: compressWithProgress_def streamCompress_def streamCompress_loop.simps
      compress_chunk_def ready_fields failing_codec_def stream_options_def opt_defs)

lemma compress_simple_tag:
  "compressWithProgress (ready tag_codec) [1, 2, 3]
     \<lparr>level = None, useStream = None, useDictionary = None, chunkSize = None\<rparr> None 2 7 =
   Some (Inr [0, 1, 2, 3],
         (ready tag_codec)\<lparr>performanceMetrics :=
            \<lparr>compressionTime = 5, decompressionTime = 0, originalSize = 3, compressedSize = 4\<rparr>\<rparr>,
         [])"
  by (simp add: compressWithProgress_def ready_fields tag_codec_def opt_defs)

section \<open>The dictionary\<close>

lemma js_slice_prefix:
  "js_slice xs 0 (min (int (length xs)) 1024) = take (min (length xs) 1024) xs"
  by (auto simp: js_slice_def rel_index_def Let_def min_def)

text \<open>
  Claim C7. \<open>createDictionary\<close> returns the first \<open>min (length sample) 1024\<close> bytes of the
  sample, whatever the object it is called on (the same sample gives the same bytes), and
  stores what it returns as the object's dictionary.
\<close>

theorem createDictionary_prefix:
  "fst (createDictionary p sampleData) = take (min (length sampleData) 1024) sampleData \<and>
   length (fst (createDictionary p sampleData)) = min (length sampleData) 1024 \<and>
   dictionary (snd (createDictionary p sampleData)) = Some (fst (createDictionary p sampleData)) \<and>
   fst (createDictionary p' sampleData) = fst (createDictionary p sampleData)"
  by (simp add: createDictionary_def Let_def js_slice_prefix)

section \<open>Metrics\<close>

lemma compress_success_state:
  assumes "compressWithProgress p data opts progressCallback startTime endTime = Some (Inr out, p', tr)"
  shows "p' = p\<lparr>performanceMetrics := (performanceMetrics p)
                 \<lparr>compressionTime := endTime - startTime,
                  originalSize := length data,
                  compressedSize := length out\<rparr>\<rparr>"
  using assms
  by (auto simp: compressWithProgress_def split: option.splits sum.splits if_splits prod.splits)

lemma or_one_max: "(if m = 0 then 1 else m) = max m (1::nat)"
  by (simp add: max_def)

text \<open>
  Claim C8. After a compression call that returned \<open>out\<close> for \<open>data\<close>, the snapshot has
  \<open>originalSize = length data\<close>, \<open>compressedSize = length out\<close> and
  \<open>compressionRatio = originalSize / max compressedSize 1\<close>. On a new object every field
  of the snapshot is 0, and neither \<open>init\<close> nor \<open>createDictionary\<close> changes the snapshot.
\<close>

theorem metrics_after_compress:
  "(compressWithProgress p data opts progressCallback startTime endTime = Some (Inr out, p', tr) \<longrightarrow>
      originalSize (getMetrics p') = length data \<and>
      compressedSize (getMetrics p') = length out \<and>
      compressionRatio (getMetrics p') = real (length data) / real (max (length out) 1)) \<and>
   getMetrics constructor =
     \<lparr>compressionTime = 0, decompressionTime = 0, originalSize = 0, compressedSize = 0,
      compressionRatio = 0\<rparr> \<and>
   getMetrics (snd (init q zstdInit)) = getMetrics q \<and>
   getMetrics (snd (createDictionary q sampleData)) = getMetrics q"
proof -
  have "originalSize (getMetrics p') = length data \<and>
      compressedSize (getMetrics p') = length out \<and>
      compressionRatio (getMetrics p') = real (length data) / real (max (length out) 1)"
    if "compressWithProgress p data opts progressCallback startTime endTime = Some (Inr out, p', tr)"
    unfolding compress_success_state [OF that] getMetrics_def or_one_max
    by (simp add: metrics.defs)
  moreover have "getMetrics constructor =
     \<lparr>compressionTime = 0, decompressionTime = 0, originalSize = 0, compressedSize = 0,
      compressionRatio = 0\<rparr>"
    by (simp add: getMetrics_def constructor_def metrics.defs)
  moreover have "getMetrics (snd (init q zstdInit)) = getMetrics q"
    by (simp add: getMetrics_def init_def split: sum.split)
  moreover have "getMetrics (snd (createDictionary q sampleData)) = getMetrics q"
    by (simp add: getMetrics_def createDictionary_def Let_def)
  ultimately show ?thesis by blast
qed

text \<open>Three bytes compressed to four by the tagging codec: sizes 3 and 4, ratio 3/4.\<close>

theorem metrics_after_compress_witness:
  "compressWithProgress (ready tag_codec) [1, 2, 3]
     \<lparr>level = None, useStream = None, useDictionary = None, chunkSize = None\<rparr> None 2 7 =
   Some (Inr [0, 1, 2, 3],
         (ready tag_codec)\<lparr>performanceMetrics :=
            \<lparr>compressionTime = 5, decompressionTime = 0, originalSize = 3, compressedSize = 4\<rparr>\<rparr>,
         []) \<and>
   getMetrics ((ready tag_codec)\<lparr>performanceMetrics :=
            \<lparr>compressionTime = 5, decompressionTime = 0, originalSize = 3, compressedSize = 4\<rparr>\<rparr>) =
     \<lparr>compressionTime = 5, decompressionTime = 0, originalSize = 3, compressedSize = 4,
      compressionRatio = 3 / 4\<rparr>"
proof -
  let ?p' = "(ready tag_codec)\<lparr>performanceMetrics :=
            \<lparr>compressionTime = 5, decompressionTime = 0, originalSize = 3, compressedSize = 4\<rparr>\<rparr>"
  have "originalSize (getMetrics ?p') = length [1, 2, 3 :: byte] \<and>
        compressedSize (getMetrics ?p') = length [0, 1, 2, 3 :: byte] \<and>
        compressionRatio (getMetrics ?p') =
          real (length [1, 2, 3 :: byte]) / real (max (length [0, 1, 2, 3 :: byte]) 1)"
    using metrics_after_compress
      [of "ready tag_codec" "[1, 2, 3]"
          "\<lparr>level = None, useStream = None, useDictionary = None, chunkSize = None\<rparr>"
          None 2 7 "[0, 1, 2, 3]" ?p' "[]"]
      compress_simple_tag
    by blast
  moreover have "compressionTime (getMetrics ?p') = 5" "decompressionTime (getMetrics ?p') = 0"
    by (simp_all add: getMetrics_def metrics.defs)
  ultimately have "getMetrics ?p' =
     \<lparr>compressionTime = 5, decompressionTime = 0, originalSize = 3, compressedSize = 4,
      compressionRatio = 3 / 4\<rparr>"
    by (cases "getMetrics ?p'") simp
  with compress_simple_tag show ?thesis by simp
qed

text \<open>
  Claim C9. When a compression call throws, whether for a missing codec, a codec error or
  an error of the callback, the object is left as it was, so its metrics are the ones
  from before the call: they are written only once the whole output exists.
\<close>

theorem compress_failure_keeps_state:
  assumes "compressWithProgress p data opts progressCallback startTime endTime = Some (Inl e, p', tr)"
  shows "p' = p \<and> performanceMetrics p' = performanceMetrics p"
  using assms
  by (auto simp: compressWithProgress_def split: option.splits sum.splits if_splits prod.splits)

theorem compress_failure_keeps_state_witness:
  "compressWithProgress (ready failing_codec) [1, 2, 3] (stream_options 2) None 0 1 =
     Some (Inl (Error ''Compression failed: rejected''), ready failing_codec, []) \<and>
   performanceMetrics (ready failing_codec) =
     \<lparr>compressionTime = 0, decompressionTime = 0, originalSize = 0, compressedSize = 0\<rparr> \<and>
   compressWithProgress constructor [1, 2, 3] (stream_options 2) None 0 1 =
     Some (Inl (Error ''ZSTD not initialized''), constructor, [])"
  using compress_failure_keeps_state [OF compress_failing] compress_failing
    compress_failure_keeps_state [OF compress_uninitialised] compress_uninitialised
  by (simp add: ready_fields)

text \<open>
  Claim C10. A decompression call that returns changes \<open>decompressionTime\<close> and nothing
  else: \<open>originalSize\<close>, \<open>compressedSize\<close>, \<open>compressionTime\<close>, the dictionary and the
  codec are the ones from before the call.
\<close>

theorem decompress_frame:
  assumes "decompress p compressedData useDict startTime endTime = (Inr out, p')"
  shows "p' = p\<lparr>performanceMetrics :=
                  (performanceMetrics p)\<lparr>decompressionTime := endTime - startTime\<rparr>\<rparr> \<and>
         decompressionTime (performanceMetrics p') = endTime - startTime \<and>
         originalSize (performanceMetrics p') = originalSize (performanceMetrics p) \<and>
         compressedSize (performanceMetrics p') = compressedSize (performanceMetrics p) \<and>
         compressionTime (performanceMetrics p') = compressionTime (performanceMetrics p) \<and>
         dictionary p' = dictionary p \<and> codec p' = codec p"
  using assms by (auto simp: decompress_def split: option.splits sum.splits if_splits)

theorem decompress_frame_witness:
  "decompress (ready raw_codec) [1, 2] False 0 1 =
     (Inr [1, 2], (ready raw_codec)\<lparr>performanceMetrics :=
        \<lparr>compressionTime = 0, decompressionTime = 1, originalSize = 0, compressedSize = 0\<rparr>\<rparr>) \<and>
   originalSize (performanceMetrics ((ready raw_codec)\<lparr>performanceMetrics :=
        \<lparr>compressionTime = 0, decompressionTime = 1, originalSize = 0, compressedSize = 0\<rparr>\<rparr>))
     = originalSize (performanceMetrics (ready raw_codec))"
proof -
  have h: "decompress (ready raw_codec) [1, 2] False 0 1 =
     (Inr [1, 2], (ready raw_codec)\<lparr>performanceMetrics :=
        \<lparr>compressionTime = 0, decompressionTime = 1, originalSize = 0, compressedSize = 0\<rparr>\<rparr>)"
    by (simp add: decompress_raw)
  from decompress_frame [OF h] h show ?thesis by blast
qed

section \<open>The slices at the loop's offsets\<close>

lemma slice_at_offset:
  assumes "0 < cs" "k < length (offsets (int (length data)) cs 0)"
  shows "js_slice data (offsets (int (length data)) cs 0 ! k) (offsets (int (length data)) cs 0 ! k + cs)
           = take (nat cs) (drop (k * nat cs) data)"
proof -
  have o: "offsets (int (length data)) cs 0 ! k = int k * cs"
    using offsets_nth [OF assms(2)] by simp
  have "nat (int k * cs) = k * nat cs"
    using assms(1) by (simp add: nat_mult_distrib)
  with assms(1) o show ?thesis
    by (simp add: js_slice_chunk)
qed

lemma offset_below:
  assumes "k < length (offsets n cs 0)"
  shows "int k * cs < n"
proof -
  from assms have "offsets n cs 0 ! k \<in> set (offsets n cs 0)" by (rule nth_mem)
  then have "offsets n cs 0 ! k < n" by (simp add: offsets_bounds)
  with offsets_nth [OF assms] show ?thesis by simp
qed

lemma offset_slices_partition:
  assumes "0 < cs"
  shows "concat (map (\<lambda>off. js_slice data off (off + cs)) (offsets (int (length data)) cs 0)) = data \<and>
      (\<forall>k<length (map (\<lambda>off. js_slice data off (off + cs)) (offsets (int (length data)) cs 0)).
          map (\<lambda>off. js_slice data off (off + cs)) (offsets (int (length data)) cs 0) ! k =
            take (nat cs) (drop (k * nat cs) data)) \<and>
      (\<forall>k. Suc k < length (map (\<lambda>off. js_slice data off (off + cs)) (offsets (int (length data)) cs 0))
          \<longrightarrow> length (map (\<lambda>off. js_slice data off (off + cs)) (offsets (int (length data)) cs 0) ! k)
                = nat cs) \<and>
      (map (\<lambda>off. js_slice data off (off + cs)) (offsets (int (length data)) cs 0) \<noteq> [] \<longrightarrow>
         0 < length (last (map (\<lambda>off. js_slice data off (off + cs)) (offsets (int (length data)) cs 0))) \<and>
         length (last (map (\<lambda>off. js_slice data off (off + cs)) (offsets (int (length data)) cs 0)))
           \<le> nat cs) \<and>
      (data \<noteq> [] \<and> int (length data) \<le> cs \<longrightarrow>
         length (map (\<lambda>off. js_slice data off (off + cs)) (offsets (int (length data)) cs 0)) = 1) \<and>
      (data = [] \<longrightarrow> map (\<lambda>off. js_slice data off (off + cs)) (offsets (int (length data)) cs 0) = [])"
proof -
  let ?n = "int (length data)"
  let ?offs = "offsets ?n cs 0"
  let ?chs = "map (\<lambda>off. js_slice data off (off + cs)) ?offs"
  have cover: "concat ?chs = data"
    using concat_slices [of 0 data cs] assms by simp
  have nth: "?chs ! k = take (nat cs) (drop (k * nat cs) data)" if "k < length ?chs" for k
    using that slice_at_offset [OF assms, of k data] by simp
  have below: "k * nat cs < length data" if "k < length ?chs" for k
  proof -
    from that have "int k * cs < ?n" using offset_below [of k ?n cs] by simp
    moreover have "int (k * nat cs) = int k * cs" using assms by simp
    ultimately show ?thesis by linarith
  qed
  have full: "length (?chs ! k) = nat cs" if "Suc k < length ?chs" for k
  proof -
    from that have "k < length ?chs" by simp
    moreover from below [OF that] have "k * nat cs + nat cs < length data"
      by (simp add: add.commute)
    ultimately show ?thesis by (simp only: nth) simp
  qed
  have lst: "0 < length (last ?chs) \<and> length (last ?chs) \<le> nat cs" if "?chs \<noteq> []"
  proof -
    from that have k: "length ?chs - 1 < length ?chs" by simp
    have "last ?chs = ?chs ! (length ?chs - 1)" using that by (rule last_conv_nth)
    also have "\<dots> = take (nat cs) (drop ((length ?chs - 1) * nat cs) data)"
      using k by (rule nth)
    finally have "last ?chs = take (nat cs) (drop ((length ?chs - 1) * nat cs) data)" .
    moreover have "(length ?chs - 1) * nat cs < length data" using k by (rule below)
    ultimately show ?thesis using assms by simp
  qed
  have one: "length ?chs = 1" if "data \<noteq> [] \<and> ?n \<le> cs"
  proof -
    from that have "offsets ?n cs (0 + cs) = []" by (simp add: offsets_empty)
    with that assms have "?offs = [0]" by (subst offsets.simps) simp
    then show ?thesis by simp
  qed
  have none: "?chs = []" if "data = []"
    using that by (simp add: offsets_empty)
  from cover nth full lst one none show ?thesis by blast
qed

section \<open>What a streaming run returns\<close>

lemma streamCompress_SomeInr:
  assumes "streamCompress p data lvl ud cs cb = Some (Inr out, tr)"
  shows "\<exists>chunks. streamCompress_loop p data lvl ud cs cb 0 [] [] = Some (Inr chunks, tr) \<and>
           out = concat chunks"
  using assms
  by (auto simp: streamCompress_def copy_chunks_concat split: option.splits sum.splits prod.splits)

lemma streamCompress_positive:
  assumes "streamCompress p data lvl ud cs cb = Some (Inr out, tr)" and "data \<noteq> []"
  shows "0 < cs"
proof -
  from streamCompress_SomeInr [OF assms(1)] obtain chunks where
    "streamCompress_loop p data lvl ud cs cb 0 [] [] = Some (Inr chunks, tr)" by blast
  from loop_nonpositive [OF this] assms(2) show ?thesis by auto
qed

lemma streamCompress_success:
  assumes "0 < cs" and "streamCompress p data lvl ud cs cb = Some (Inr out, tr)"
  shows "\<exists>zs. list_all2 (\<lambda>off z. compress_chunk p lvl ud (js_slice data off (off + cs)) = Inr z)
                 (offsets (int (length data)) cs 0) zs \<and>
              out = concat zs \<and>
              tr = reported_calls cb data cs (offsets (int (length data)) cs 0) zs"
proof -
  from streamCompress_SomeInr [OF assms(2)] obtain chunks where
    l: "streamCompress_loop p data lvl ud cs cb 0 [] [] = Some (Inr chunks, tr)"
    and o: "out = concat chunks" by blast
  from loop_success [OF assms(1) l] o show ?thesis by auto
qed

lemma streamCompress_empty: "streamCompress p [] lvl ud cs cb = Some (Inr [], [])"
  by (simp add: streamCompress_def streamCompress_loop.simps totalLength_def)

lemma compress_stream_success:
  assumes "compressWithProgress p data opts cb s e = Some (Inr out, p', tr)" and "opt_useStream opts"
  shows "streamCompress p data (opt_level opts) (opt_useDictionary opts) (opt_chunkSize opts) cb
           = Some (Inr out, tr)"
  using assms
  by (auto simp: compressWithProgress_def split: option.splits sum.splits prod.splits)

lemma progress_of_mono:
  assumes "x \<le> y"
  shows "progress_of data cs x \<le> progress_of data cs y"
proof -
  from assms have "real_of_int (x + cs) / real (length data) \<le> real_of_int (y + cs) / real (length data)"
    by (intro divide_right_mono) simp_all
  then show ?thesis unfolding progress_of_def by (rule min.mono) simp
qed

lemma sorted_progress:
  "sorted (map (progress_of data cs) (offsets n cs i))"
proof (induction n cs i rule: offsets.induct)
  case (1 n cs i)
  show ?case
  proof (cases "0 < cs \<and> i < n")
    case True
    have "progress_of data cs i \<le> progress_of data cs x" if "x \<in> set (offsets n cs (i + cs))" for x
    proof -
      from offsets_bounds [OF that] True have "i \<le> x" by simp
      then show ?thesis by (rule progress_of_mono)
    qed
    with 1 True show ?thesis by (subst offsets.simps) auto
  next
    case False
    then have "offsets n cs i = []" by (simp add: offsets_empty)
    then show ?thesis by simp
  qed
qed

lemma progress_last:
  assumes "offsets (int (length data)) cs i \<noteq> []" and "data \<noteq> []"
  shows "progress_of data cs (last (offsets (int (length data)) cs i)) = 1"
proof -
  let ?n = "int (length data)"
  let ?l = "last (offsets ?n cs i)"
  from assms(2) have pos: "0 < real (length data)" by simp
  from offsets_last [OF assms(1)] have "?n \<le> ?l + cs" .
  then have "real (length data) \<le> real_of_int (?l + cs)"
    by (metis of_int_le_iff of_int_of_nat_eq)
  with pos have "1 \<le> real_of_int (?l + cs) / real (length data)"
    by (simp add: le_divide_eq)
  then show ?thesis by (simp add: progress_of_def)
qed

lemma reported_fst:
  "length offs = length zs \<Longrightarrow>
   map fst (reported_calls (Some f) data cs offs zs) = map (progress_of data cs) offs"
  by (induction offs zs rule: list_induct2) (simp_all add: reported_calls_def)

lemma reported_snd:
  "length offs = length zs \<Longrightarrow>
   sum_list (map snd (reported_calls (Some f) data cs offs zs)) = length (concat zs)"
  by (induction offs zs rule: list_induct2) (simp_all add: reported_calls_def)

text \<open>
  Claim C5. When a streaming compression of a non-empty input with a callback returns,
  the callback has been called at least once, the fractions it was given never decrease
  from one call to the next, the last fraction is 1, and the chunk lengths it was given
  add up to the length of the output (which holds the compressed chunks and nothing
  else). The call returning already means that the chunk size was positive.
\<close>

theorem progress_monotone:
  assumes "compressWithProgress p data opts (Some cb) startTime endTime = Some (Inr out, p', tr)"
    and "opt_useStream opts" and "data \<noteq> []"
  shows "tr \<noteq> [] \<and> sorted (map fst tr) \<and> fst (last tr) = 1 \<and>
         sum_list (map snd tr) = length out"
proof -
  let ?cs = "opt_chunkSize opts"
  let ?offs = "offsets (int (length data)) ?cs 0"
  note sc = compress_stream_success [OF assms(1,2)]
  have pos: "0 < ?cs" using sc assms(3) by (rule streamCompress_positive)
  from streamCompress_success [OF pos sc] obtain zs where
    all: "list_all2 (\<lambda>off z. compress_chunk p (opt_level opts) (opt_useDictionary opts)
                       (js_slice data off (off + ?cs)) = Inr z) ?offs zs"
    and out: "out = concat zs"
    and tr: "tr = reported_calls (Some cb) data ?cs ?offs zs" by blast
  from all have len: "length ?offs = length zs" by (rule list_all2_lengthD)
  have fsts: "map fst tr = map (progress_of data ?cs) ?offs"
    unfolding tr using len by (rule reported_fst)
  from pos assms(3) have ne: "?offs \<noteq> []" by (simp add: offsets_empty)
  with fsts have tne: "tr \<noteq> []" by auto
  have "sorted (map fst tr)" unfolding fsts by (rule sorted_progress)
  moreover have "fst (last tr) = 1"
  proof -
    have "fst (last tr) = last (map fst tr)" using tne by (simp add: last_map)
    also have "\<dots> = progress_of data ?cs (last ?offs)" unfolding fsts using ne by (simp add: last_map)
    also have "\<dots> = 1" using ne assms(3) by (rule progress_last)
    finally show ?thesis .
  qed
  moreover have "sum_list (map snd tr) = length out"
    unfolding tr out using len by (rule reported_snd)
  ultimately show ?thesis using tne by blast
qed

lemma compress_stream_raw_cb:
  "compressWithProgress (ready raw_codec) [1, 2, 3] (stream_options 2) (Some (\<lambda>x n. None)) 0 1 =
     Some (Inr [1, 2, 3],
           (ready raw_codec)\<lparr>performanceMetrics :=
              \<lparr>compressionTime = 1, decompressionTime = 0, originalSize = 3, compressedSize = 3\<rparr>\<rparr>,
           [(2 / 3, 2), (1, 1)])"
  by (simp add: compressWithProgress_def streamCompress_def streamCompress_loop.simps
      compress_chunk_def progress_of_def js_slice_def rel_index_def totalLength_def typed_set_def
      ready_fields raw_codec_def stream_options_def opt_defs)

theorem progress_monotone_witness:
  "compressWithProgress (ready raw_codec) [1, 2, 3] (stream_options 2) (Some (\<lambda>x n. None)) 0 1 =
     Some (Inr [1, 2, 3],
           (ready raw_codec)\<lparr>performanceMetrics :=
              \<lparr>compressionTime = 1, decompressionTime = 0, originalSize = 3, compressedSize = 3\<rparr>\<rparr>,
           [(2 / 3, 2), (1, 1)]) \<and>
   opt_useStream (stream_options 2) \<and> [1, 2, 3 :: byte] \<noteq> [] \<and>
   sorted (map fst [(2 / 3 :: real, 2 :: nat), (1, 1)]) \<and>
   fst (last [(2 / 3 :: real, 2 :: nat), (1, 1)]) = 1 \<and>
   sum_list (map snd [(2 / 3 :: real, 2 :: nat), (1, 1)]) = length [1, 2, 3 :: byte]"
proof -
  have s: "opt_useStream (stream_options 2)" by (simp add: stream_options_def opt_defs)
  have n: "[1, 2, 3 :: byte] \<noteq> []" by simp
  from progress_monotone [OF compress_stream_raw_cb s n] compress_stream_raw_cb s n
  show ?thesis by blast
qed

section \<open>The streaming output\<close>

lemma streamCompress_returns:
  assumes "0 < cs"
    and "list_all2 (\<lambda>off z. compress_chunk p lvl ud (js_slice data off (off + cs)) = Inr z)
           (offsets (int (length data)) cs 0) zs"
    and "\<And>f x n. cb = Some f \<Longrightarrow> f x n = None"
  shows "streamCompress p data lvl ud cs cb =
           Some (Inr (concat zs), reported_calls cb data cs (offsets (int (length data)) cs 0) zs)"
proof -
  have "streamCompress_loop p data lvl ud cs cb 0 [] [] =
          Some (Inr ([] @ zs),
                [] @ reported_calls cb data cs (offsets (int (length data)) cs 0) zs)"
    using assms(1,2) by (rule loop_returns) (rule assms(3))
  then show ?thesis
    by (simp add: streamCompress_def copy_chunks_concat)
qed

text \<open>
  Claim C1, as the code has it. For a positive chunk size the output of \<open>streamCompress\<close>
  is the compressed chunks one after the other, in chunk order, with nothing before,
  between or after them: if the codec compresses every chunk and the callback does not
  throw, the call returns the concatenation of the compressed chunks; and every output
  it returns is such a concatenation. There is no length prefix.
\<close>

theorem streamCompress_concatenates:
  assumes "0 < cs"
  shows "\<exists>chs. streamCompress_slices data cs 0 [] = Some chs \<and>
     (\<forall>zs. list_all2 (\<lambda>ch z. compress_chunk p lvl ud ch = Inr z) chs zs \<and>
            (\<forall>f x n. cb = Some f \<longrightarrow> f x n = None)
          \<longrightarrow> (\<exists>tr. streamCompress p data lvl ud cs cb = Some (Inr (concat zs), tr))) \<and>
     (\<forall>out tr. streamCompress p data lvl ud cs cb = Some (Inr out, tr)
          \<longrightarrow> (\<exists>zs. list_all2 (\<lambda>ch z. compress_chunk p lvl ud ch = Inr z) chs zs \<and>
                    out = concat zs))"
proof -
  let ?offs = "offsets (int (length data)) cs 0"
  let ?chs = "map (\<lambda>off. js_slice data off (off + cs)) ?offs"
  have run: "streamCompress_slices data cs 0 [] = Some ?chs"
    using slices_offsets [OF assms, of data 0 "[]"] by simp
  have a: "\<exists>tr. streamCompress p data lvl ud cs cb = Some (Inr (concat zs), tr)"
    if "list_all2 (\<lambda>ch z. compress_chunk p lvl ud ch = Inr z) ?chs zs"
      and "\<forall>f x n. cb = Some f \<longrightarrow> f x n = None" for zs
  proof -
    from that(1) have "list_all2 (\<lambda>off z. compress_chunk p lvl ud (js_slice data off (off + cs)) = Inr z)
           ?offs zs" by (simp add: list_all2_map1)
    from streamCompress_returns [OF assms this] that(2) show ?thesis by blast
  qed
  have b: "\<exists>zs. list_all2 (\<lambda>ch z. compress_chunk p lvl ud ch = Inr z) ?chs zs \<and> out = concat zs"
    if "streamCompress p data lvl ud cs cb = Some (Inr out, tr)" for out tr
    using streamCompress_success [OF assms that] by (auto simp: list_all2_map1)
  from run a b show ?thesis by blast
qed

lemma stream_raw_run:
  "streamCompress (ready raw_codec) [1, 2, 3] 5 False 2 None = Some (Inr [1, 2, 3], [])"
  by (simp add: streamCompress_def streamCompress_loop.simps compress_chunk_def js_slice_def
      rel_index_def totalLength_def typed_set_def ready_fields raw_codec_def)

lemma slices_small: "streamCompress_slices [1, 2, 3] 2 0 [] = Some [[1, 2], [3]]"
  by (simp add: streamCompress_slices.simps js_slice_def rel_index_def)

lemma compress_chunk_raw: "compress_chunk (ready raw_codec) lvl ud ch = Inr ch"
  by (simp add: compress_chunk_def ready_fields raw_codec_def)

theorem streamCompress_concatenates_witness:
  "(0::int) < 2 \<and>
   streamCompress_slices [1, 2, 3] 2 0 [] = Some [[1, 2], [3]] \<and>
   list_all2 (\<lambda>ch z. compress_chunk (ready raw_codec) 5 False ch = Inr z) [[1, 2], [3]] [[1, 2], [3]] \<and>
   (\<exists>tr. streamCompress (ready raw_codec) [1, 2, 3] 5 False 2 None =
            Some (Inr (concat [[1, 2], [3]]), tr))"
proof -
  have h: "(0::int) < 2" by simp
  have l: "list_all2 (\<lambda>ch z. compress_chunk (ready raw_codec) 5 False ch = Inr z)
             [[1, 2], [3]] [[1, 2], [3]]"
    by (simp add: compress_chunk_raw)
  from streamCompress_concatenates [OF h, of "[1, 2, 3]" "ready raw_codec" 5 False None]
    slices_small
  have "\<forall>zs. list_all2 (\<lambda>ch z. compress_chunk (ready raw_codec) 5 False ch = Inr z) [[1, 2], [3]] zs
          \<longrightarrow> (\<exists>tr. streamCompress (ready raw_codec) [1, 2, 3] 5 False 2 None =
                      Some (Inr (concat zs), tr))"
    by auto
  with l have "\<exists>tr. streamCompress (ready raw_codec) [1, 2, 3] 5 False 2 None =
            Some (Inr (concat [[1, 2], [3]]), tr)"
    by blast
  with h slices_small l show ?thesis by blast
qed

text \<open>
  Claim C1 as stated fails: for the bytes 1, 2, 3 in chunks of 2 and a codec that stores
  the bytes as they are, the framed output of the specification is
  \<open>2 0 0 0 1 2 1 0 0 0 3\<close>, and \<open>streamCompress\<close> returns \<open>1 2 3\<close>.
\<close>

theorem streamCompress_not_framed:
  "streamCompress_slices [1, 2, 3] 2 0 [] = Some [[1, 2], [3]] \<and>
   compress_chunk (ready raw_codec) 5 False [1, 2] = Inr [1, 2] \<and>
   compress_chunk (ready raw_codec) 5 False [3] = Inr [3] \<and>
   spec_framed_output [[1, 2], [3]] = [2, 0, 0, 0, 1, 2, 1, 0, 0, 0, 3] \<and>
   streamCompress (ready raw_codec) [1, 2, 3] 5 False 2 None = Some (Inr [1, 2, 3], []) \<and>
   streamCompress (ready raw_codec) [1, 2, 3] 5 False 2 None \<noteq>
     Some (Inr (spec_framed_output [[1, 2], [3]]), [])"
  by (simp add: slices_small compress_chunk_raw stream_raw_run spec_framed_output_def
      spec_frame_def le32_def)

section \<open>Round trip\<close>

lemma compress_chunk_Some:
  "codec p = Some c \<Longrightarrow>
   compress_chunk p lvl ud ch =
     ZstdStream_compress c ch lvl True (if ud then Passed (dictionary p) else Omitted)"
  by (simp add: compress_chunk_def)

lemma compress_simple_success:
  assumes "compressWithProgress p data opts cb s e = Some (Inr out, p', tr)"
    and "\<not> opt_useStream opts" and "codec p = Some c"
  shows "ZstdSimple_compress c data (opt_level opts)
           (if opt_useDictionary opts then Passed (dictionary p) else Omitted) = Inr out"
  using assms
  by (auto simp: compressWithProgress_def split: option.splits sum.splits prod.splits if_splits)

lemma decompress_Some:
  "codec p = Some c \<Longrightarrow>
   fst (decompress p z ud s e) =
     (case ZstdStream_decompress c z (if ud then Passed (dictionary p) else Omitted) of
        Inl m \<Rightarrow> Inl (Error (''Decompression failed: '' @ m))
      | Inr out \<Rightarrow> Inr out)"
  by (simp add: decompress_def split: sum.split)

lemma roundtrip_on_success:
  assumes "codec p = Some c"
    and "\<not> opt_useStream opts \<longrightarrow> codec_stream_reads_simple c"
    and "opt_useStream opts \<longrightarrow> codec_reads_frame_runs c"
    and "compressWithProgress p b opts cb s e = Some (Inr z, p', tr)"
  shows "fst (decompress p' z (opt_useDictionary opts) s' e') = Inr b"
proof -
  let ?ud = "opt_useDictionary opts"
  let ?lvl = "opt_level opts"
  let ?cs = "opt_chunkSize opts"
  let ?a = "if ?ud then Passed (dictionary p) else Omitted"
  have p': "codec p' = Some c" "dictionary p' = dictionary p"
    using compress_success_state [OF assms(4)] assms(1) by simp_all
  have "ZstdStream_decompress c z ?a = Inr b"
  proof (cases "opt_useStream opts")
    case False
    from compress_simple_success [OF assms(4) False assms(1)]
    have "ZstdSimple_compress c b ?lvl ?a = Inr z" .
    with assms(2) False show ?thesis unfolding codec_stream_reads_simple_def by blast
  next
    case True
    note sc = compress_stream_success [OF assms(4) True]
    from assms(3) True have fr: "codec_reads_frame_runs c" by simp
    show ?thesis
    proof (cases "b = []")
      case True
      with sc have "z = []" by (simp add: streamCompress_empty)
      moreover have "list_all2 (\<lambda>ch z. ZstdStream_compress c ch ?lvl True ?a = Inr z) [] []"
        by simp
      with fr have "ZstdStream_decompress c (concat []) ?a = Inr (concat [])"
        unfolding codec_reads_frame_runs_def by blast
      ultimately show ?thesis using True by simp
    next
      case False
      with sc have pos: "0 < ?cs" by (rule streamCompress_positive)
      let ?offs = "offsets (int (length b)) ?cs 0"
      let ?chs = "map (\<lambda>off. js_slice b off (off + ?cs)) ?offs"
      from streamCompress_success [OF pos sc] obtain zs where
        all: "list_all2 (\<lambda>off z. compress_chunk p ?lvl ?ud (js_slice b off (off + ?cs)) = Inr z)
                ?offs zs"
        and z: "z = concat zs" by blast
      from all have "list_all2 (\<lambda>ch z. ZstdStream_compress c ch ?lvl True ?a = Inr z) ?chs zs"
        by (simp add: list_all2_map1 compress_chunk_Some [OF assms(1)])
      with fr have "ZstdStream_decompress c (concat zs) ?a = Inr (concat ?chs)"
        unfolding codec_reads_frame_runs_def by blast
      moreover have "concat ?chs = b" using concat_slices [of 0 b ?cs] pos by simp
      ultimately show ?thesis using z by simp
    qed
  qed
  then show ?thesis
    using decompress_Some [OF p'(1), of z ?ud s' e'] p'(2) by (auto split: if_splits)
qed

lemma list_all2_total:
  assumes "\<And>x. \<exists>z. f x = Inr z"
  shows "\<exists>zs. list_all2 (\<lambda>x z. f x = Inr z) xs zs"
proof (induction xs)
  case Nil
  show ?case by simp
next
  case (Cons x xs)
  from assms obtain z where "f x = Inr z" by blast
  moreover from Cons obtain zs where "list_all2 (\<lambda>x z. f x = Inr z) xs zs" by blast
  ultimately have "list_all2 (\<lambda>x z. f x = Inr z) (x # xs) (z # zs)" by simp
  then show ?case by blast
qed

lemma compressWithProgress_returns:
  assumes "codec p = Some c" and "codec_compresses_all c"
    and "opt_useStream opts \<longrightarrow> 0 < opt_chunkSize opts"
    and "\<And>f x n. cb = Some f \<Longrightarrow> f x n = None"
  shows "\<exists>z p' tr. compressWithProgress p b opts cb s e = Some (Inr z, p', tr)"
proof (cases "opt_useStream opts")
  case False
  from assms(2) obtain z where
    "ZstdSimple_compress c b (opt_level opts)
       (if opt_useDictionary opts then Passed (dictionary p) else Omitted) = Inr z"
    unfolding codec_compresses_all_def by blast
  with False assms(1) show ?thesis
    by (auto simp: compressWithProgress_def)
next
  case True
  let ?cs = "opt_chunkSize opts"
  from True assms(3) have pos: "0 < ?cs" by simp
  have "\<exists>z. compress_chunk p (opt_level opts) (opt_useDictionary opts) (js_slice b off (off + ?cs)) = Inr z"
    for off
    using assms(2) unfolding codec_compresses_all_def compress_chunk_Some [OF assms(1)] by blast
  from list_all2_total [of "\<lambda>off. compress_chunk p (opt_level opts) (opt_useDictionary opts)
                               (js_slice b off (off + ?cs))", OF this]
  obtain zs where
    zs: "list_all2 (\<lambda>off z. compress_chunk p (opt_level opts) (opt_useDictionary opts)
                          (js_slice b off (off + ?cs)) = Inr z)
       (offsets (int (length b)) ?cs 0) zs"
    by blast
  have "streamCompress p b (opt_level opts) (opt_useDictionary opts) ?cs cb =
          Some (Inr (concat zs), reported_calls cb b ?cs (offsets (int (length b)) ?cs 0) zs)"
    using pos zs by (rule streamCompress_returns) (rule assms(4))
  with True assms(1) show ?thesis
    by (simp add: compressWithProgress_def)
qed

lemma raw_reads_simple: "codec_stream_reads_simple raw_codec"
  by (simp add: codec_stream_reads_simple_def raw_codec_def)

lemma raw_reads_frame_runs: "codec_reads_frame_runs raw_codec"
proof -
  have "list_all2 (\<lambda>ch z. (Inr ch :: string + bytes) = Inr z) chs zs \<Longrightarrow> chs = zs" for chs zs
    by (induction chs zs rule: list_all2_induct) simp_all
  then show ?thesis
    by (auto simp: codec_reads_frame_runs_def raw_codec_def)
qed

lemma tag_inverse_pair: "codec_inverse_pair tag_codec"
  by (auto simp: codec_inverse_pair_def tag_codec_def)

lemma suffix_inverse_pair: "codec_inverse_pair suffix_codec"
  by (auto simp: codec_inverse_pair_def suffix_codec_def)

lemma valid_stream_options: "valid_options (stream_options 2)"
  by (simp add: valid_options_def stream_options_def opt_defs)

lemma valid_default_options: "valid_options default_options"
  by (simp add: valid_options_def default_options_def opt_defs)

lemma compress_stream_raw:
  "compressWithProgress (ready raw_codec) [1, 2, 3] (stream_options 2) None 0 1 =
     Some (Inr [1, 2, 3],
           (ready raw_codec)\<lparr>performanceMetrics :=
              \<lparr>compressionTime = 1, decompressionTime = 0, originalSize = 3, compressedSize = 3\<rparr>\<rparr>,
           [])"
  by (simp add: compressWithProgress_def stream_raw_run ready_fields stream_options_def opt_defs)

lemma compress_stream_tag:
  "compressWithProgress (ready tag_codec) [1, 2, 3] (stream_options 2) None 0 1 =
     Some (Inr [0, 1, 2, 0, 3],
           (ready tag_codec)\<lparr>performanceMetrics :=
              \<lparr>compressionTime = 1, decompressionTime = 0, originalSize = 3, compressedSize = 5\<rparr>\<rparr>,
           [])"
  by (simp add: compressWithProgress_def streamCompress_def streamCompress_loop.simps
      compress_chunk_def js_slice_def rel_index_def totalLength_def typed_set_def
      ready_fields tag_codec_def stream_options_def opt_defs)

lemma compress_simple_suffix:
  "compressWithProgress (ready suffix_codec) [1, 2, 3] default_options None 0 1 =
     Some (Inr [1, 2, 3, 0],
           (ready suffix_codec)\<lparr>performanceMetrics :=
              \<lparr>compressionTime = 1, decompressionTime = 0, originalSize = 3, compressedSize = 4\<rparr>\<rparr>,
           [])"
  by (simp add: compressWithProgress_def ready_fields suffix_codec_def default_options_def opt_defs)

text \<open>
  Claim C2, as the code has it. For every buffer and all valid options, whenever the
  compression call returns, decompressing what it returned on the same object, with the
  same dictionary flag, returns exactly the buffer, provided the codec's stream
  decompressor inverts what the class gives it: without streaming it has to read what
  the simple compressor writes, with streaming it has to read a run of stream frames one
  after the other (the empty run included). And the compression call does return when
  the codec's compressors never throw and the callback does not throw.
\<close>

theorem roundtrip_frame_runs:
  assumes "codec p = Some c" and "valid_options opts"
    and "\<not> opt_useStream opts \<longrightarrow> codec_stream_reads_simple c"
    and "opt_useStream opts \<longrightarrow> codec_reads_frame_runs c"
  shows "(\<forall>z p' tr. compressWithProgress p b opts cb s e = Some (Inr z, p', tr) \<longrightarrow>
            fst (decompress p' z (opt_useDictionary opts) s' e') = Inr b) \<and>
         (codec_compresses_all c \<and> (\<forall>f x n. cb = Some f \<longrightarrow> f x n = None) \<longrightarrow>
            (\<exists>z p' tr. compressWithProgress p b opts cb s e = Some (Inr z, p', tr)))"
proof -
  from assms(2) have pos: "opt_useStream opts \<longrightarrow> 0 < opt_chunkSize opts"
    by (simp add: valid_options_def)
  have "\<exists>z p' tr. compressWithProgress p b opts cb s e = Some (Inr z, p', tr)"
    if "codec_compresses_all c" "\<forall>f x n. cb = Some f \<longrightarrow> f x n = None"
    using assms(1) that(1) pos by (rule compressWithProgress_returns) (simp add: that(2))
  moreover have "fst (decompress p' z (opt_useDictionary opts) s' e') = Inr b"
    if "compressWithProgress p b opts cb s e = Some (Inr z, p', tr)" for z p' tr
    using assms(1,3,4) that by (rule roundtrip_on_success)
  ultimately show ?thesis by blast
qed

text \<open>The bytes 1, 2, 3 in chunks of 2 under the storing codec come back as they were.\<close>

theorem roundtrip_frame_runs_witness:
  "codec (ready raw_codec) = Some raw_codec \<and> valid_options (stream_options 2) \<and>
   opt_useStream (stream_options 2) \<and> codec_reads_frame_runs raw_codec \<and>
   compressWithProgress (ready raw_codec) [1, 2, 3] (stream_options 2) None 0 1 =
     Some (Inr [1, 2, 3],
           (ready raw_codec)\<lparr>performanceMetrics :=
              \<lparr>compressionTime = 1, decompressionTime = 0, originalSize = 3, compressedSize = 3\<rparr>\<rparr>,
           []) \<and>
   fst (decompress
          ((ready raw_codec)\<lparr>performanceMetrics :=
              \<lparr>compressionTime = 1, decompressionTime = 0, originalSize = 3, compressedSize = 3\<rparr>\<rparr>)
          [1, 2, 3] (opt_useDictionary (stream_options 2)) 1 2) = Inr [1, 2, 3]"
proof -
  have c: "codec (ready raw_codec) = Some raw_codec" by (simp add: ready_fields)
  have u: "opt_useStream (stream_options 2)" by (simp add: stream_options_def opt_defs)
  from u have h1: "\<not> opt_useStream (stream_options 2) \<longrightarrow> codec_stream_reads_simple raw_codec"
    by simp
  from raw_reads_frame_runs
  have h2: "opt_useStream (stream_options 2) \<longrightarrow> codec_reads_frame_runs raw_codec" by simp
  from roundtrip_frame_runs [OF c valid_stream_options h1 h2, of "[1, 2, 3]" None 0 1 1 2]
  have "\<forall>z p' tr.
          compressWithProgress (ready raw_codec) [1, 2, 3] (stream_options 2) None 0 1 =
            Some (Inr z, p', tr) \<longrightarrow>
          fst (decompress p' z (opt_useDictionary (stream_options 2)) 1 2) = Inr [1, 2, 3]"
    by blast
  with compress_stream_raw c u valid_stream_options raw_reads_frame_runs
  show ?thesis by blast
qed

text \<open>
  Claim C2 as stated fails: a correct inverse pair is not enough, with or without
  streaming. The tagging codec is one, the options are valid, and the bytes 1, 2, 3
  compressed in chunks of 2 come back as 1, 2, 0, 3: its decompressor reads one frame.
  The codec with a format for each interface is one, and the bytes 1, 2, 3 compressed
  without streaming come back as 1, 2, 3, 0: the class compresses with \<open>ZstdSimple\<close> and
  decompresses with \<open>ZstdStream\<close>.
\<close>

theorem roundtrip_inverse_pair_fails:
  "codec_inverse_pair tag_codec \<and> valid_options (stream_options 2) \<and>
   compressWithProgress (ready tag_codec) [1, 2, 3] (stream_options 2) None 0 1 =
     Some (Inr [0, 1, 2, 0, 3],
           (ready tag_codec)\<lparr>performanceMetrics :=
              \<lparr>compressionTime = 1, decompressionTime = 0, originalSize = 3, compressedSize = 5\<rparr>\<rparr>,
           []) \<and>
   fst (decompress
          ((ready tag_codec)\<lparr>performanceMetrics :=
              \<lparr>compressionTime = 1, decompressionTime = 0, originalSize = 3, compressedSize = 5\<rparr>\<rparr>)
          [0, 1, 2, 0, 3] (opt_useDictionary (stream_options 2)) 1 2) = Inr [1, 2, 0, 3] \<and>
   codec_inverse_pair suffix_codec \<and> valid_options default_options \<and>
   compressWithProgress (ready suffix_codec) [1, 2, 3] default_options None 0 1 =
     Some (Inr [1, 2, 3, 0],
           (ready suffix_codec)\<lparr>performanceMetrics :=
              \<lparr>compressionTime = 1, decompressionTime = 0, originalSize = 3, compressedSize = 4\<rparr>\<rparr>,
           []) \<and>
   fst (decompress
          ((ready suffix_codec)\<lparr>performanceMetrics :=
              \<lparr>compressionTime = 1, decompressionTime = 0, originalSize = 3, compressedSize = 4\<rparr>\<rparr>)
          [1, 2, 3, 0] (opt_useDictionary default_options) 1 2) = Inr [1, 2, 3, 0]"
proof -
  have "fst (decompress
          ((ready tag_codec)\<lparr>performanceMetrics :=
              \<lparr>compressionTime = 1, decompressionTime = 0, originalSize = 3, compressedSize = 5\<rparr>\<rparr>)
          [0, 1, 2, 0, 3] (opt_useDictionary (stream_options 2)) 1 2) = Inr [1, 2, 0, 3]"
    by (simp add: decompress_def ready_fields tag_codec_def stream_options_def opt_defs)
  moreover have "fst (decompress
          ((ready suffix_codec)\<lparr>performanceMetrics :=
              \<lparr>compressionTime = 1, decompressionTime = 0, originalSize = 3, compressedSize = 4\<rparr>\<rparr>)
          [1, 2, 3, 0] (opt_useDictionary default_options) 1 2) = Inr [1, 2, 3, 0]"
    by (simp add: decompress_def ready_fields suffix_codec_def default_options_def opt_defs)
  ultimately show ?thesis
    using tag_inverse_pair valid_stream_options compress_stream_tag
      suffix_inverse_pair valid_default_options compress_simple_suffix
    by simp
qed

section \<open>Options and framing errors\<close>

lemma streamCompress_success_slices:
  assumes "streamCompress p data lvl ud cs cb = Some (Inr out, tr)"
  shows "\<exists>chs zs. streamCompress_slices data cs 0 [] = Some chs \<and>
           list_all2 (\<lambda>ch z. compress_chunk p lvl ud ch = Inr z) chs zs \<and> out = concat zs"
proof (cases "data = []")
  case True
  with assms have "out = []" by (simp add: streamCompress_empty)
  moreover from True have "streamCompress_slices data cs 0 [] = Some []"
    by (subst streamCompress_slices.simps) simp
  ultimately show ?thesis by simp
next
  case False
  with assms have pos: "0 < cs" by (rule streamCompress_positive)
  let ?offs = "offsets (int (length data)) cs 0"
  have "streamCompress_slices data cs 0 [] = Some (map (\<lambda>off. js_slice data off (off + cs)) ?offs)"
    using slices_offsets [OF pos, of data 0 "[]"] by simp
  with streamCompress_success [OF pos assms] show ?thesis
    by (auto simp: list_all2_map1)
qed

text \<open>
  Claim C3, as the code has it. On an initialised object no option is checked before
  the codec is called. Without streaming the call is one call of the codec's simple
  compressor on the whole buffer, with \<open>this.dictionary\<close> as the dictionary argument when
  \<open>useDictionary\<close> is set (so \<open>null\<close> when none was created) and whatever the chunk size:
  it returns the codec's output, or fails with the codec's message after
  \<open>Compression failed:\<close>. With streaming every chunk goes to the stream compressor with
  that same argument, every returned output is the concatenation of the compressed
  chunks, and every failure is a \<open>Compression failed\<close> error.
\<close>

theorem compress_unvalidated:
  assumes "codec p = Some c"
  shows "(\<not> opt_useStream opts \<longrightarrow>
            compressWithProgress p data opts progressCallback startTime endTime =
              (case ZstdSimple_compress c data (opt_level opts)
                      (if opt_useDictionary opts then Passed (dictionary p) else Omitted) of
                 Inl m \<Rightarrow> Some (Inl (Error (''Compression failed: '' @ m)), p, [])
               | Inr out \<Rightarrow>
                   Some (Inr out,
                         p\<lparr>performanceMetrics := (performanceMetrics p)
                             \<lparr>compressionTime := endTime - startTime,
                              originalSize := length data,
                              compressedSize := length out\<rparr>\<rparr>,
                         []))) \<and>
         (opt_useStream opts \<longrightarrow>
            (\<forall>out p' tr.
               compressWithProgress p data opts progressCallback startTime endTime =
                 Some (Inr out, p', tr) \<longrightarrow>
               (\<exists>chs zs. streamCompress_slices data (opt_chunkSize opts) 0 [] = Some chs \<and>
                  list_all2
                    (\<lambda>ch z. ZstdStream_compress c ch (opt_level opts) True
                               (if opt_useDictionary opts then Passed (dictionary p) else Omitted)
                             = Inr z)
                    chs zs \<and>
                  out = concat zs)) \<and>
            (\<forall>e p' tr.
               compressWithProgress p data opts progressCallback startTime endTime =
                 Some (Inl e, p', tr) \<longrightarrow>
               (\<exists>m. e = Error (''Compression failed: '' @ m))))"
proof -
  let ?lvl = "opt_level opts"
  let ?cs = "opt_chunkSize opts"
  let ?a = "if opt_useDictionary opts then Passed (dictionary p) else Omitted"
  have simple: "compressWithProgress p data opts progressCallback startTime endTime =
              (case ZstdSimple_compress c data ?lvl ?a of
                 Inl m \<Rightarrow> Some (Inl (Error (''Compression failed: '' @ m)), p, [])
               | Inr out \<Rightarrow>
                   Some (Inr out,
                         p\<lparr>performanceMetrics := (performanceMetrics p)
                             \<lparr>compressionTime := endTime - startTime,
                              originalSize := length data,
                              compressedSize := length out\<rparr>\<rparr>,
                         []))"
    if "\<not> opt_useStream opts"
    using that assms by (simp add: compressWithProgress_def split: sum.split)
  have run: "\<exists>chs zs. streamCompress_slices data ?cs 0 [] = Some chs \<and>
                  list_all2 (\<lambda>ch z. ZstdStream_compress c ch ?lvl True ?a = Inr z) chs zs \<and>
                  out = concat zs"
    if s: "opt_useStream opts"
      and r: "compressWithProgress p data opts progressCallback startTime endTime =
                Some (Inr out, p', tr)" for out p' tr
    using streamCompress_success_slices [OF compress_stream_success [OF r s]]
    by (simp add: compress_chunk_Some [OF assms])
  have err: "\<exists>m. e = Error (''Compression failed: '' @ m)"
    if "compressWithProgress p data opts progressCallback startTime endTime = Some (Inl e, p', tr)"
    for e p' tr
    using that assms
    by (auto simp: compressWithProgress_def split: option.splits sum.splits prod.splits if_splits)
  from simple run err show ?thesis by blast
qed

lemma compress_unset_dictionary:
  "compressWithProgress (ready raw_codec) [1, 2, 3] unset_dictionary_options None 0 1 =
     Some (Inr [1, 2, 3],
           (ready raw_codec)\<lparr>performanceMetrics :=
              \<lparr>compressionTime = 1, decompressionTime = 0, originalSize = 3, compressedSize = 3\<rparr>\<rparr>,
           [])"
  by (simp add: compressWithProgress_def ready_fields raw_codec_def unset_dictionary_options_def
      opt_defs)

lemma compress_stream_unset_dictionary:
  "compressWithProgress (ready raw_codec) [1, 2, 3]
     \<lparr>level = None, useStream = Some True, useDictionary = Some True, chunkSize = Some 2\<rparr> None 0 1 =
     Some (Inr [1, 2, 3],
           (ready raw_codec)\<lparr>performanceMetrics :=
              \<lparr>compressionTime = 1, decompressionTime = 0, originalSize = 3, compressedSize = 3\<rparr>\<rparr>,
           [])"
  by (simp add: compressWithProgress_def streamCompress_def streamCompress_loop.simps
      compress_chunk_def js_slice_def rel_index_def totalLength_def typed_set_def
      ready_fields raw_codec_def opt_defs)

theorem compress_unvalidated_witness:
  "codec (ready raw_codec) = Some raw_codec \<and>
   \<not> opt_useStream unset_dictionary_options \<and>
   compressWithProgress (ready raw_codec) [1, 2, 3] unset_dictionary_options None 0 1 =
     (case ZstdSimple_compress raw_codec [1, 2, 3] (opt_level unset_dictionary_options)
             (Passed None) of
        Inl m \<Rightarrow> Some (Inl (Error (''Compression failed: '' @ m)), ready raw_codec, [])
      | Inr out \<Rightarrow>
          Some (Inr out,
                (ready raw_codec)\<lparr>performanceMetrics := (performanceMetrics (ready raw_codec))
                    \<lparr>compressionTime := 1 - 0,
                     originalSize := length [1, 2, 3 :: byte],
                     compressedSize := length out\<rparr>\<rparr>,
                []))"
proof -
  have c: "codec (ready raw_codec) = Some raw_codec" by (simp add: ready_fields)
  have s: "\<not> opt_useStream unset_dictionary_options"
    by (simp add: unset_dictionary_options_def opt_defs)
  have a: "(if opt_useDictionary unset_dictionary_options
            then Passed (dictionary (ready raw_codec)) else Omitted) = Passed None"
    by (simp add: unset_dictionary_options_def opt_defs ready_fields)
  from compress_unvalidated [OF c, of unset_dictionary_options "[1, 2, 3]" None 0 1] s
  have "compressWithProgress (ready raw_codec) [1, 2, 3] unset_dictionary_options None 0 1 =
     (case ZstdSimple_compress raw_codec [1, 2, 3] (opt_level unset_dictionary_options)
             (if opt_useDictionary unset_dictionary_options
              then Passed (dictionary (ready raw_codec)) else Omitted) of
        Inl m \<Rightarrow> Some (Inl (Error (''Compression failed: '' @ m)), ready raw_codec, [])
      | Inr out \<Rightarrow>
          Some (Inr out,
                (ready raw_codec)\<lparr>performanceMetrics := (performanceMetrics (ready raw_codec))
                    \<lparr>compressionTime := 1 - 0,
                     originalSize := length [1, 2, 3 :: byte],
                     compressedSize := length out\<rparr>\<rparr>,
                []))"
    by blast
  with c s show ?thesis by (simp only: a) simp
qed

text \<open>
  Claim C3 as stated fails: with \<open>useDictionary\<close> set, no dictionary created and a chunk
  size of 0, the call returns the compressed bytes; so does a streaming call with
  \<open>useDictionary\<close> set and no dictionary.
\<close>

theorem compress_no_config_error:
  "dictionary (ready raw_codec) = None \<and>
   opt_useDictionary unset_dictionary_options \<and>
   opt_chunkSize unset_dictionary_options \<le> 0 \<and>
   compressWithProgress (ready raw_codec) [1, 2, 3] unset_dictionary_options None 0 1 =
     Some (Inr [1, 2, 3],
           (ready raw_codec)\<lparr>performanceMetrics :=
              \<lparr>compressionTime = 1, decompressionTime = 0, originalSize = 3, compressedSize = 3\<rparr>\<rparr>,
           []) \<and>
   compressWithProgress (ready raw_codec) [1, 2, 3]
     \<lparr>level = None, useStream = Some True, useDictionary = Some True, chunkSize = Some 2\<rparr> None 0 1 =
     Some (Inr [1, 2, 3],
           (ready raw_codec)\<lparr>performanceMetrics :=
              \<lparr>compressionTime = 1, decompressionTime = 0, originalSize = 3, compressedSize = 3\<rparr>\<rparr>,
           [])"
  by (simp add: compress_unset_dictionary compress_stream_unset_dictionary ready_fields)
     (simp add: unset_dictionary_options_def opt_defs)

text \<open>
  Claim C4, as the code has it. \<open>decompress\<close> reads no length prefix: it hands the whole
  buffer to the codec's stream decompressor. It fails exactly when that call fails, with
  the codec's message after \<open>Decompression failed:\<close> and the object unchanged, and
  otherwise returns what the codec returned.
\<close>

theorem decompress_follows_codec:
  assumes "codec p = Some c"
  shows "(isl (fst (decompress p compressedData useDict startTime endTime)) \<longleftrightarrow>
            isl (ZstdStream_decompress c compressedData
                   (if useDict then Passed (dictionary p) else Omitted))) \<and>
         (\<forall>m. ZstdStream_decompress c compressedData
                 (if useDict then Passed (dictionary p) else Omitted) = Inl m \<longrightarrow>
              decompress p compressedData useDict startTime endTime =
                (Inl (Error (''Decompression failed: '' @ m)), p)) \<and>
         (\<forall>out. ZstdStream_decompress c compressedData
                 (if useDict then Passed (dictionary p) else Omitted) = Inr out \<longrightarrow>
              fst (decompress p compressedData useDict startTime endTime) = Inr out)"
  using assms by (auto simp: decompress_def split: sum.splits)

lemma compress_stream_prefixed:
  "compressWithProgress (ready raw_codec) [9, 0, 0, 0, 7, 7] (stream_options 4) None 0 1 =
     Some (Inr [9, 0, 0, 0, 7, 7],
           (ready raw_codec)\<lparr>performanceMetrics :=
              \<lparr>compressionTime = 1, decompressionTime = 0, originalSize = 6, compressedSize = 6\<rparr>\<rparr>,
           [])"
  by (simp add: compressWithProgress_def streamCompress_def streamCompress_loop.simps
      compress_chunk_def js_slice_def rel_index_def totalLength_def typed_set_def
      ready_fields raw_codec_def stream_options_def opt_defs)

theorem decompress_follows_codec_witness:
  "codec (ready failing_codec) = Some failing_codec \<and>
   decompress (ready failing_codec) [9, 0, 0, 0, 7] False 1 2 =
     (Inl (Error ''Decompression failed: rejected''), ready failing_codec)"
proof -
  have c: "codec (ready failing_codec) = Some failing_codec" by (simp add: ready_fields)
  have r: "ZstdStream_decompress failing_codec [9, 0, 0, 0, 7]
             (if False then Passed (dictionary (ready failing_codec)) else Omitted) = Inl ''rejected''"
    by (simp add: failing_codec_def)
  from decompress_follows_codec [OF c, of "[9, 0, 0, 0, 7]" False 1 2] r
  have "decompress (ready failing_codec) [9, 0, 0, 0, 7] False 1 2 =
     (Inl (Error (''Decompression failed: '' @ ''rejected'')), ready failing_codec)"
    by blast
  with c show ?thesis by simp
qed

text \<open>
  Claim C4 as stated fails: the streaming output for \<open>9 0 0 0 7 7\<close> under the storing
  codec, with its last byte cut off, starts with the little-endian length 9 and has one
  byte after it; \<open>decompress\<close> returns the five bytes.
\<close>

theorem decompress_no_framing_error:
  "compressWithProgress (ready raw_codec) [9, 0, 0, 0, 7, 7] (stream_options 4) None 0 1 =
     Some (Inr [9, 0, 0, 0, 7, 7],
           (ready raw_codec)\<lparr>performanceMetrics :=
              \<lparr>compressionTime = 1, decompressionTime = 0, originalSize = 6, compressedSize = 6\<rparr>\<rparr>,
           []) \<and>
   butlast [9, 0, 0, 0, 7, 7 :: byte] = le32 9 @ [7] \<and>
   fst (decompress (ready raw_codec) (butlast [9, 0, 0, 0, 7, 7]) False 1 2) = Inr [9, 0, 0, 0, 7]"
  by (simp add: compress_stream_prefixed decompress_raw le32_def)

section \<open>The chunks of a streaming run\<close>

lemma loop_raw_chunks:
  assumes "0 < cs"
  shows "streamCompress_loop (ready raw_codec) data lvl ud cs None 0 [] [] =
           Some (Inr (map (\<lambda>off. js_slice data off (off + cs)) (offsets (int (length data)) cs 0)), [])"
proof -
  let ?offs = "offsets (int (length data)) cs 0"
  let ?chs = "map (\<lambda>off. js_slice data off (off + cs)) ?offs"
  have "list_all2 (\<lambda>off z. compress_chunk (ready raw_codec) lvl ud (js_slice data off (off + cs)) = Inr z)
          ?offs ?chs"
    by (simp add: compress_chunk_raw list_all2_map2 list_all2_same)
  with assms have "streamCompress_loop (ready raw_codec) data lvl ud cs None 0 [] [] =
      Some (Inr ([] @ ?chs), [] @ reported_calls None data cs ?offs ?chs)"
    by (rule loop_returns) simp
  then show ?thesis by (simp add: reported_calls_def)
qed

lemma loop_raw_scenario:
  "streamCompress_loop (ready raw_codec) [0, 1, 2, 3, 4, 5, 6, 7, 8, 9] 5 False 4 None 0 [] [] =
     Some (Inr [[0, 1, 2, 3], [4, 5, 6, 7], [8, 9]], [])"
  by (simp add: streamCompress_loop.simps compress_chunk_raw js_slice_def rel_index_def)

lemma loop_raw_empty:
  "streamCompress_loop (ready raw_codec) [] 5 False 4 None 0 [] [] = Some (Inr [], [])"
  by (simp add: streamCompress_loop.simps)

text \<open>
  Claim C6, as the code has it. For a positive chunk size the loop of \<open>streamCompress\<close>
  cuts the input into a sequence of chunks: run with the codec that stores each chunk as
  it is, its array \<open>chunks\<close> is that sequence, and under any codec, with or without a
  callback, the compressed chunks of a returning run are the codec's outputs on exactly
  these chunks, in order. Concatenated in order the chunks are the input: chunk \<open>k\<close> is
  the \<open>chunkSize\<close> bytes from offset \<open>k * chunkSize\<close> on, or what is left of the input
  there. Every chunk but the last has exactly \<open>chunkSize\<close> bytes, the last one has
  between 1 and \<open>chunkSize\<close>. A non-empty input no longer than \<open>chunkSize\<close> gives one
  chunk, an empty input gives none.
\<close>

theorem chunks_partition:
  assumes "0 < cs"
  shows "\<exists>chs.
      streamCompress_loop (ready raw_codec) data lvl ud cs None 0 [] [] = Some (Inr chs, []) \<and>
      (\<forall>p l u cb zs tr.
          streamCompress_loop p data l u cs cb 0 [] [] = Some (Inr zs, tr) \<longrightarrow>
          list_all2 (\<lambda>ch z. compress_chunk p l u ch = Inr z) chs zs) \<and>
      streamCompress_slices data cs 0 [] = Some chs \<and>
      concat chs = data \<and>
      (\<forall>k<length chs. chs ! k = take (nat cs) (drop (k * nat cs) data)) \<and>
      (\<forall>k. Suc k < length chs \<longrightarrow> length (chs ! k) = nat cs) \<and>
      (chs \<noteq> [] \<longrightarrow> 0 < length (last chs) \<and> length (last chs) \<le> nat cs) \<and>
      (data \<noteq> [] \<and> int (length data) \<le> cs \<longrightarrow> length chs = 1) \<and>
      (data = [] \<longrightarrow> chs = [])"
proof -
  let ?offs = "offsets (int (length data)) cs 0"
  let ?chs = "map (\<lambda>off. js_slice data off (off + cs)) ?offs"
  have raw: "streamCompress_loop (ready raw_codec) data lvl ud cs None 0 [] [] = Some (Inr ?chs, [])"
    using assms by (rule loop_raw_chunks)
  have any: "list_all2 (\<lambda>ch z. compress_chunk p l u ch = Inr z) ?chs zs"
    if "streamCompress_loop p data l u cs cb 0 [] [] = Some (Inr zs, tr)" for p l u cb zs tr
    using loop_success [OF assms that] by (auto simp: list_all2_map1)
  have sl: "streamCompress_slices data cs 0 [] = Some ?chs"
    using slices_offsets [OF assms, of data 0 "[]"] by simp
  note part = offset_slices_partition [OF assms, of data]
  have "streamCompress_loop (ready raw_codec) data lvl ud cs None 0 [] [] = Some (Inr ?chs, []) \<and>
      (\<forall>p l u cb zs tr.
          streamCompress_loop p data l u cs cb 0 [] [] = Some (Inr zs, tr) \<longrightarrow>
          list_all2 (\<lambda>ch z. compress_chunk p l u ch = Inr z) ?chs zs) \<and>
      streamCompress_slices data cs 0 [] = Some ?chs \<and>
      concat ?chs = data \<and>
      (\<forall>k<length ?chs. ?chs ! k = take (nat cs) (drop (k * nat cs) data)) \<and>
      (\<forall>k. Suc k < length ?chs \<longrightarrow> length (?chs ! k) = nat cs) \<and>
      (?chs \<noteq> [] \<longrightarrow> 0 < length (last ?chs) \<and> length (last ?chs) \<le> nat cs) \<and>
      (data \<noteq> [] \<and> int (length data) \<le> cs \<longrightarrow> length ?chs = 1) \<and>
      (data = [] \<longrightarrow> ?chs = [])"
    using raw any sl part by blast
  then show ?thesis by (rule exI)
qed

text \<open>
  The ten bytes 0 to 9 with chunk size 4: the loop's chunks are the three slices of 4, 4
  and 2 bytes, each a full chunk but the last, and together they are the input.
\<close>

theorem chunks_partition_witness:
  "(0::int) < 4 \<and>
   streamCompress_loop (ready raw_codec) [0, 1, 2, 3, 4, 5, 6, 7, 8, 9] 5 False 4 None 0 [] [] =
     Some (Inr [[0, 1, 2, 3], [4, 5, 6, 7], [8, 9]], []) \<and>
   concat [[0, 1, 2, 3], [4, 5, 6, 7], [8, 9 :: byte]] = [0, 1, 2, 3, 4, 5, 6, 7, 8, 9] \<and>
   length ([[0, 1, 2, 3], [4, 5, 6, 7], [8, 9 :: byte]] ! 0) = nat 4 \<and>
   length ([[0, 1, 2, 3], [4, 5, 6, 7], [8, 9 :: byte]] ! 1) = nat 4 \<and>
   length (last [[0, 1, 2, 3], [4, 5, 6, 7], [8, 9 :: byte]]) \<le> nat 4"
proof -
  have h: "(0::int) < 4" by simp
  from chunks_partition [OF h, of "[0, 1, 2, 3, 4, 5, 6, 7, 8, 9]" 5 False]
  obtain chs where
    run: "streamCompress_loop (ready raw_codec) [0, 1, 2, 3, 4, 5, 6, 7, 8, 9] 5 False 4 None 0 [] []
            = Some (Inr chs, [])"
    and cover: "concat chs = [0, 1, 2, 3, 4, 5, 6, 7, 8, 9]"
    and full: "\<forall>k. Suc k < length chs \<longrightarrow> length (chs ! k) = nat 4"
    and lst: "chs \<noteq> [] \<longrightarrow> 0 < length (last chs) \<and> length (last chs) \<le> nat 4"
    by blast
  from run have chs: "chs = [[0, 1, 2, 3], [4, 5, 6, 7], [8, 9]]"
    by (simp add: loop_raw_scenario)
  from full have "length (chs ! 0) = nat 4" "length (chs ! 1) = nat 4"
    unfolding chs by simp_all
  with h run cover lst show ?thesis unfolding chs by simp
qed

text \<open>
  Claim C6 as stated fails at the empty input, where its last two clauses meet: the
  chunk size 4 is at least the length 0 of the input, and the loop makes no chunk, not
  one.
\<close>

theorem chunks_empty_input_none:
  "int (length ([] :: bytes)) \<le> 4 \<and>
   streamCompress_loop (ready raw_codec) [] 5 False 4 None 0 [] [] = Some (Inr [], []) \<and>
   streamCompress_slices [] 4 0 [] = Some [] \<and>
   length ([] :: bytes list) \<noteq> 1"
  by (simp add: loop_raw_empty streamCompress_slices.simps)

end
